theory Spec2Isabelle
  imports Main "HOL-Library.Char_ord" "HOL-Library.List_Lexorder"
begin

section \<open>Value model (smalljson.h)\<close>

text \<open>
  A \<open>Value\<close> is the pair of members \<open>type_\<close> and \<open>value_data_\<close>. The member
  \<open>value_data_\<close> is a \<open>std::variant<std::string, array_ptr, object_ptr>\<close>; its three
  alternatives are the three constructors of \<open>value_t\<close>. An \<open>Array\<close> is its member
  \<open>array_data_\<close> (a \<open>std::vector<Value>\<close>, here a list), an \<open>Object\<close> is its member
  \<open>object_data_\<close> (a \<open>std::map<std::string, Value>\<close>, here an association list kept
  in ascending key order with unique keys, which is the order the map iterates in).
  Characters are bytes and strings are compared as \<open>std::string\<close> compares them:
  lexicographically, bytes as unsigned values.
\<close>

datatype ValueType = Array | Object | Null | Boolean | String | Number

datatype Value = Value (type: ValueType) (value_data: value_t)
and value_t =
    string_alt string
  | array_ptr "Value list"
  | object_ptr "(string \<times> Value) list"

datatype ParseError =
    NOT_JSON | ROOT_NOT_ONE | MISS_COLON | MISS_VALUE | LACK_COMMA_OR_BRACE
  | LACK_COMMA_OR_BRACKET | BAD_KEY | BAD_VALUE | JSON_LENGTH | BAD_ESCAPE
  | BAD_BOOLEAN | BAD_NULL | BAD_NUMBER | BAD_TYPE

text \<open>
  What the code can throw: its own \<open>Exception\<close> carrying a \<open>ParseError\<close>, and the two
  standard-library exceptions of \<open>std::get\<close> on the wrong alternative and of
  \<open>std::map::at\<close> / \<open>std::vector::at\<close> on a missing key or index.
\<close>

datatype exn = Exception ParseError | bad_variant_access | out_of_range

section \<open>Escape codec (escapeJson, unescapeJson)\<close>

text \<open>\<open>std::string::replace(pos, count, r)\<close> for \<open>pos \<le> size()\<close>; \<open>count\<close> is clamped
  to the characters that remain.\<close>

definition replace :: "string \<Rightarrow> nat \<Rightarrow> nat \<Rightarrow> string \<Rightarrow> string" where
  "replace str pos count r = take pos str @ r @ drop (pos + count) str"

text \<open>\<open>str[idx]\<close> of a \<open>std::string\<close>: the position \<open>size()\<close> holds the terminating
  NUL character.\<close>

definition char_at :: "string \<Rightarrow> nat \<Rightarrow> char" where
  "char_at str idx = (if idx < length str then str ! idx else CHR 0x00)"

text \<open>The table \<open>replaceStr\<close> of \<open>escapeJson\<close>: backslash (0x5C) followed by
  \<open>n t \ b r " f\<close>.\<close>

definition escape_replaceStr :: "string list" where
  "escape_replaceStr =
     [[CHR 0x5C, CHR ''n''], [CHR 0x5C, CHR ''t''], [CHR 0x5C, CHR 0x5C],
      [CHR 0x5C, CHR ''b''], [CHR 0x5C, CHR ''r''], [CHR 0x5C, CHR 0x22],
      [CHR 0x5C, CHR ''f'']]"

text \<open>
  The \<open>switch\<close> of \<open>escapeJson\<close>: \<open>Some replaceIdx\<close> when the case ends in \<open>break\<close>,
  \<open>None\<close> when control reaches \<open>continue\<close>. The case of form feed (0x0C) sets
  \<open>replaceIdx = 6\<close> and has no \<open>break\<close>, so it falls through into
  \<open>default: continue\<close>.
\<close>

definition escape_switch :: "char \<Rightarrow> nat option" where
  "escape_switch c =
     (if c = CHR 0x0A then Some 0
      else if c = CHR 0x09 then Some 1
      else if c = CHR 0x5C then Some 2
      else if c = CHR 0x08 then Some 3
      else if c = CHR 0x0D then Some 4
      else if c = CHR 0x22 then Some 5
      else if c = CHR 0x0C then None
      else None)"

function escapeJson_loop :: "nat \<Rightarrow> string \<Rightarrow> string" where
  "escapeJson_loop idx escapeStr =
     (if idx < length escapeStr then
        (case escape_switch (escapeStr ! idx) of
           None \<Rightarrow> escapeJson_loop (idx + 1) escapeStr
         | Some replaceIdx \<Rightarrow>
             escapeJson_loop (idx + 1 + 1)
               (replace escapeStr idx 1 (escape_replaceStr ! replaceIdx)))
      else escapeStr)"
  by pat_completeness auto
termination
proof (relation "measure (\<lambda>(idx, s). length s - idx)", goal_cases)
  case 1
  show ?case by simp
next
  case 2
  then show ?case by simp
next
  case (3 idx s i)
  then have "i < 7"
    by (auto simp: escape_switch_def split: if_splits)
  then have "length (escape_replaceStr ! i) = 2"
    by (auto simp: escape_replaceStr_def nth_Cons')
  with 3 show ?case by (simp add: replace_def)
qed

declare escapeJson_loop.simps [simp del]

definition escapeJson :: "string \<Rightarrow> string" where
  "escapeJson str = escapeJson_loop 0 str"

text \<open>The table \<open>replaceStr\<close> of \<open>unescapeJson\<close>: newline, tab, backslash, backspace,
  carriage return, double quote, form feed.\<close>

definition unescape_replaceStr :: "string list" where
  "unescape_replaceStr =
     [[CHR 0x0A], [CHR 0x09], [CHR 0x5C], [CHR 0x08], [CHR 0x0D], [CHR 0x22], [CHR 0x0C]]"

text \<open>
  The \<open>switch\<close> of \<open>unescapeJson\<close> on the character after a backslash. Every case
  leaves the \<open>switch\<close> with \<open>break\<close>; \<open>default\<close> leaves \<open>replaceIdx\<close> at its initial
  value 0.
\<close>

definition unescape_switch :: "char \<Rightarrow> nat" where
  "unescape_switch c =
     (if c = CHR ''n'' then 0
      else if c = CHR ''t'' then 1
      else if c = CHR 0x5C then 2
      else if c = CHR ''b'' then 3
      else if c = CHR ''r'' then 4
      else if c = CHR 0x22 then 5
      else if c = CHR ''f'' then 6
      else 0)"

function unescapeJson_loop :: "nat \<Rightarrow> string \<Rightarrow> string" where
  "unescapeJson_loop idx unescapeStr =
     (if idx < length unescapeStr then
        (if unescapeStr ! idx \<noteq> CHR 0x5C then unescapeJson_loop (idx + 1) unescapeStr
         else unescapeJson_loop (idx + 1)
                (replace unescapeStr idx 2
                   (unescape_replaceStr ! unescape_switch (char_at unescapeStr (idx + 1)))))
      else unescapeStr)"
  by pat_completeness auto
termination
proof (relation "measure (\<lambda>(idx, s). length s - idx)", goal_cases)
  case 1
  show ?case by simp
next
  case 2
  then show ?case by simp
next
  case (3 idx s)
  have "unescape_switch (char_at s (idx + 1)) < 7"
    by (simp add: unescape_switch_def)
  then have "length (unescape_replaceStr ! unescape_switch (char_at s (idx + 1))) = 1"
    by (auto simp: unescape_replaceStr_def nth_Cons')
  with 3 show ?case by (simp add: replace_def)
qed

declare unescapeJson_loop.simps [simp del]

definition unescapeJson :: "string \<Rightarrow> string" where
  "unescapeJson str = unescapeJson_loop 0 str"

text \<open>The two classes of characters the escape law of the specification speaks of.\<close>

definition ordinary :: "char \<Rightarrow> bool" where
  "ordinary c \<longleftrightarrow> c \<noteq> CHR 0x5C \<and> c \<noteq> CHR 0x22"

definition recognized_control :: "char \<Rightarrow> bool" where
  "recognized_control c \<longleftrightarrow>
     c \<in> {CHR 0x0A, CHR 0x09, CHR 0x5C, CHR 0x08, CHR 0x0D, CHR 0x22, CHR 0x0C}"

section \<open>Serializer (Value::to_string, Object::to_string, Array::to_string)\<close>

text \<open>
  \<open>std::get\<close> on an alternative that is not the active one throws
  \<open>std::bad_variant_access\<close>. The two loops append to \<open>str\<close>, which starts as the opening
  bracket; after the loop \<open>pop_back\<close> removes the last character of \<open>str\<close>
  (\<open>butlast\<close>), whatever it is, and the closing bracket is appended. The \<open>default\<close>
  branch of the \<open>switch\<close> is not reachable for the six enumerators.
\<close>

fun to_string :: "Value \<Rightarrow> exn + string"
and Object_to_string_loop :: "(string \<times> Value) list \<Rightarrow> string \<Rightarrow> exn + string"
and Array_to_string_loop :: "Value list \<Rightarrow> string \<Rightarrow> exn + string"
where
  "to_string (Value t d) =
     (case t of
        Null \<Rightarrow> Inr ''null''
      | Boolean \<Rightarrow> (case d of string_alt s \<Rightarrow> Inr s | _ \<Rightarrow> Inl bad_variant_access)
      | Number \<Rightarrow> (case d of string_alt s \<Rightarrow> Inr s | _ \<Rightarrow> Inl bad_variant_access)
      | String \<Rightarrow>
          (case d of string_alt s \<Rightarrow> Inr ([CHR 0x22] @ s @ [CHR 0x22])
           | _ \<Rightarrow> Inl bad_variant_access)
      | Object \<Rightarrow>
          (case d of
             object_ptr object_data \<Rightarrow>
               (case Object_to_string_loop object_data ''{'' of
                  Inl e \<Rightarrow> Inl e
                | Inr str \<Rightarrow> Inr (butlast str @ ''}''))
           | _ \<Rightarrow> Inl bad_variant_access)
      | Array \<Rightarrow>
          (case d of
             array_ptr array_data \<Rightarrow>
               (case Array_to_string_loop array_data ''['' of
                  Inl e \<Rightarrow> Inl e
                | Inr str \<Rightarrow> Inr (butlast str @ '']''))
           | _ \<Rightarrow> Inl bad_variant_access))"
| "Object_to_string_loop [] str = Inr str"
| "Object_to_string_loop ((key, value) # rest) str =
     (case to_string value of
        Inl e \<Rightarrow> Inl e
      | Inr vs \<Rightarrow>
          Object_to_string_loop rest
            (str @ [CHR 0x22] @ escapeJson key @ [CHR 0x22, CHR '':''] @ vs @ '',''))"
| "Array_to_string_loop [] str = Inr str"
| "Array_to_string_loop (value # rest) str =
     (case to_string value of
        Inl e \<Rightarrow> Inl e
      | Inr vs \<Rightarrow> Array_to_string_loop rest (str @ vs @ '',''))"

section \<open>Accessors\<close>

definition isObject :: "Value \<Rightarrow> bool" where
  "isObject v \<longleftrightarrow> type v = Object"

definition isArray :: "Value \<Rightarrow> bool" where
  "isArray v \<longleftrightarrow> type v = Array"

definition to_object :: "Value \<Rightarrow> exn + (string \<times> Value) list" where
  "to_object v =
     (if isObject v then
        (case value_data v of object_ptr object_data \<Rightarrow> Inr object_data
         | _ \<Rightarrow> Inl bad_variant_access)
      else Inl (Exception BAD_TYPE))"

definition to_array :: "Value \<Rightarrow> exn + Value list" where
  "to_array v =
     (if isArray v then
        (case value_data v of array_ptr array_data \<Rightarrow> Inr array_data
         | _ \<Rightarrow> Inl bad_variant_access)
      else Inl (Exception BAD_TYPE))"

text \<open>\<open>Object::at\<close> is \<open>std::map::at\<close> and \<open>Array::at\<close> is \<open>std::vector::at\<close>: both throw
  \<open>std::out_of_range\<close> when the key or index is absent.\<close>

definition Object_at :: "(string \<times> Value) list \<Rightarrow> string \<Rightarrow> exn + Value" where
  "Object_at object_data key =
     (case map_of object_data key of None \<Rightarrow> Inl out_of_range | Some v \<Rightarrow> Inr v)"

definition Array_at :: "Value list \<Rightarrow> nat \<Rightarrow> exn + Value" where
  "Array_at array_data idx =
     (if idx < length array_data then Inr (array_data ! idx) else Inl out_of_range)"

definition at_key :: "Value \<Rightarrow> string \<Rightarrow> exn + Value" where
  "at_key v key = (case to_object v of Inl e \<Rightarrow> Inl e | Inr obj \<Rightarrow> Object_at obj key)"

definition at_idx :: "Value \<Rightarrow> nat \<Rightarrow> exn + Value" where
  "at_idx v idx = (case to_array v of Inl e \<Rightarrow> Inl e | Inr arr \<Rightarrow> Array_at arr idx)"

section \<open>Parser\<close>

text \<open>
  The parser's state is the iterator \<open>cur_\<close>; \<open>end_\<close> never moves. The model carries the
  characters from \<open>cur_\<close> up to \<open>end_\<close>: \<open>cur_ == end_\<close> is \<open>cur = []\<close>, \<open>cur_++\<close> is
  \<open>drop 1 cur\<close>. The code reads \<open>*cur_\<close> without asking whether \<open>cur_ == end_\<close>; the buffer
  of a \<open>std::string\<close> ends in a NUL character, which is what that read yields at
  \<open>end_\<close> (\<open>peek\<close>). \<open>std::string(first, last)\<close> of two positions of the buffer is
  \<open>substring\<close>; its third argument is 1 where the code passes \<open>cur_ - 1\<close>. An \<open>assert\<close> is
  not modelled: every call site has checked its condition.
\<close>

definition peek :: "string \<Rightarrow> char" where
  "peek cur = (case cur of [] \<Rightarrow> CHR 0x00 | c # _ \<Rightarrow> c)"

definition isdigit :: "char \<Rightarrow> bool" where
  "isdigit c \<longleftrightarrow> c \<in> set ''0123456789''"

definition substring :: "string \<Rightarrow> string \<Rightarrow> nat \<Rightarrow> string" where
  "substring from_cur to_cur back = take (length from_cur - length to_cur - back) from_cur"

fun skipWhiteSpace :: "string \<Rightarrow> string" where
  "skipWhiteSpace [] = []"
| "skipWhiteSpace (c # cur) =
     (if c = CHR '' '' \<or> c = CHR 0x0A \<or> c = CHR 0x0D \<or> c = CHR 0x09
      then skipWhiteSpace cur else c # cur)"

fun skipDigit :: "string \<Rightarrow> string" where
  "skipDigit [] = []"
| "skipDigit (c # cur) = (if isdigit c then skipDigit cur else c # cur)"

text \<open>The case labels of the \<open>switch\<close> in \<open>parseRawString\<close>: the characters that may
  follow a backslash.\<close>

definition parseRawString_cases :: "char list" where
  "parseRawString_cases =
     [CHR 0x22, CHR 0x5C, CHR ''/'', CHR ''t'', CHR ''r'', CHR ''n'', CHR ''u'', CHR ''b'',
      CHR ''f'']"

fun parseRawString_loop :: "string \<Rightarrow> exn + string" where
  "parseRawString_loop [] = Inr []"
| "parseRawString_loop (c # cur) =
     (if c = CHR 0x5C then
        (case cur of
           [] \<Rightarrow> Inl (Exception BAD_ESCAPE)
         | d # cur' \<Rightarrow>
             if d \<in> set parseRawString_cases
             then parseRawString_loop cur'
             else Inl (Exception BAD_ESCAPE))
      else if c = CHR 0x22 then Inr cur
      else parseRawString_loop cur)"

definition parseRawString :: "string \<Rightarrow> exn + string \<times> string" where
  "parseRawString cur =
     (if peek cur \<noteq> CHR 0x22 then Inl (Exception BAD_KEY)
      else
        let old_cur = drop 1 cur in
        (case parseRawString_loop old_cur of
           Inl e \<Rightarrow> Inl e
         | Inr cur' \<Rightarrow>
             if cur' = [] then Inl (Exception JSON_LENGTH)
             else Inr (substring old_cur cur' 1, cur')))"

definition parseString :: "string \<Rightarrow> exn + Value \<times> string" where
  "parseString cur =
     (case parseRawString cur of
        Inl e \<Rightarrow> Inl e
      | Inr (str, cur') \<Rightarrow> Inr (Value String (string_alt str), cur'))"

definition parseBoolean :: "string \<Rightarrow> exn + Value \<times> string" where
  "parseBoolean cur =
     (if peek cur = CHR ''t'' then
        (let str = take 4 cur in
         if str = ''true'' then Inr (Value Boolean (string_alt str), drop 4 cur)
         else Inl (Exception BAD_BOOLEAN))
      else if peek cur = CHR ''f'' then
        (let str = take 5 cur in
         if str = ''false'' then Inr (Value Boolean (string_alt str), drop 5 cur)
         else Inl (Exception BAD_BOOLEAN))
      else Inl (Exception BAD_BOOLEAN))"

definition parseNull :: "string \<Rightarrow> exn + Value \<times> string" where
  "parseNull cur =
     (let str = take 4 cur in
      if str = ''null'' then Inr (Value Null (string_alt []), drop 4 cur)
      else Inl (Exception BAD_NULL))"

definition parseNumber :: "string \<Rightarrow> exn + Value \<times> string" where
  "parseNumber old_cur =
     (let cur1 = (if peek old_cur = CHR ''-'' then drop 1 old_cur else old_cur) in
      if \<not> isdigit (peek cur1) then Inl (Exception BAD_NUMBER)
      else if cur1 \<noteq> [] \<and> peek cur1 = CHR ''0'' \<and> drop 1 cur1 \<noteq> []
              \<and> isdigit (peek (drop 1 cur1))
      then Inl (Exception BAD_NUMBER)
      else
        let cur2 = skipDigit cur1 in
        if peek cur2 = CHR ''.'' then
          (let cur3 = skipDigit (drop 1 cur2) in
           Inr (Value Number (string_alt (substring old_cur cur3 0)), cur3))
        else if peek cur2 = CHR ''e'' \<or> peek cur2 = CHR ''E'' then
          (let cur3 = drop 1 cur2 in
           if cur3 = [] then Inl (Exception BAD_NUMBER)
           else
             let cur4 = (if peek cur3 = CHR ''+'' \<or> peek cur3 = CHR ''-''
                         then drop 1 cur3 else cur3) in
             if \<not> isdigit (peek cur4) then Inl (Exception BAD_NUMBER)
             else
               let cur5 = skipDigit cur4 in
               Inr (Value Number (string_alt (substring old_cur cur5 0)), cur5))
        else Inr (Value Number (string_alt (substring old_cur cur2 0)), cur2))"

text \<open>
  \<open>std::map::emplace\<close>: when the key is already present nothing is inserted and the stored
  value is left as it is; otherwise the entry is inserted at its place in key order.
\<close>

definition emplace :: "string \<Rightarrow> Value \<Rightarrow> (string \<times> Value) list \<Rightarrow> (string \<times> Value) list" where
  "emplace key value object_data =
     (if key \<in> fst ` set object_data then object_data
      else insort_key fst (key, value) object_data)"

text \<open>
  The recursive descent. The five functions call each other as the member functions do;
  the two \<open>while (true)\<close> loops are \<open>parseArray_loop\<close> and \<open>parseObject_loop\<close>, with the
  local container as an argument. The first argument bounds the number of nested calls
  and loop rounds; \<open>None\<close> says the bound was reached. \<open>parse\<close> passes a bound that is
  never reached (\<open>parse_returns\<close> below).
\<close>

function (sequential) parseValue :: "nat \<Rightarrow> string \<Rightarrow> (exn + Value \<times> string) option"
and parseArray :: "nat \<Rightarrow> string \<Rightarrow> (exn + Value \<times> string) option"
and parseArray_loop :: "nat \<Rightarrow> Value list \<Rightarrow> string \<Rightarrow> (exn + Value \<times> string) option"
and parseObject :: "nat \<Rightarrow> string \<Rightarrow> (exn + Value \<times> string) option"
and parseObject_loop ::
  "nat \<Rightarrow> (string \<times> Value) list \<Rightarrow> string \<Rightarrow> (exn + Value \<times> string) option"
where
  "parseValue 0 cur = None"
| "parseValue (Suc fuel) cur =
     (if peek cur = CHR ''t'' \<or> peek cur = CHR ''f'' then Some (parseBoolean cur)
      else if peek cur = CHR ''n'' then Some (parseNull cur)
      else if peek cur = CHR 0x22 then Some (parseString cur)
      else if peek cur = CHR ''['' then parseArray fuel cur
      else if peek cur = CHR ''{'' then parseObject fuel cur
      else if peek cur = CHR ''-'' \<or> isdigit (peek cur) then Some (parseNumber cur)
      else Some (Inl (Exception BAD_VALUE)))"
| "parseArray 0 cur = None"
| "parseArray (Suc fuel) cur =
     (let cur1 = skipWhiteSpace (drop 1 cur) in
      if peek cur1 = CHR '']'' then Some (Inr (Value Array (array_ptr []), drop 1 cur1))
      else parseArray_loop fuel [] cur1)"
| "parseArray_loop 0 array_data cur = None"
| "parseArray_loop (Suc fuel) array_data cur =
     (case parseValue fuel (skipWhiteSpace cur) of
        None \<Rightarrow> None
      | Some (Inl e) \<Rightarrow> Some (Inl e)
      | Some (Inr (value, cur1)) \<Rightarrow>
          (let cur2 = skipWhiteSpace cur1;
               array_data' = array_data @ [value] in
           if peek cur2 = CHR '','' then parseArray_loop fuel array_data' (drop 1 cur2)
           else if peek cur2 = CHR '']'' then
             Some (Inr (Value Array (array_ptr array_data'), drop 1 cur2))
           else Some (Inl (Exception LACK_COMMA_OR_BRACKET))))"
| "parseObject 0 cur = None"
| "parseObject (Suc fuel) cur =
     (let cur1 = skipWhiteSpace (drop 1 cur) in
      if peek cur1 = CHR ''}'' then Some (Inr (Value Object (object_ptr []), drop 1 cur1))
      else parseObject_loop fuel [] cur1)"
| "parseObject_loop 0 object_data cur = None"
| "parseObject_loop (Suc fuel) object_data cur =
     (case parseRawString (skipWhiteSpace cur) of
        Inl e \<Rightarrow> Some (Inl e)
      | Inr (key, cur1) \<Rightarrow>
          (let cur2 = skipWhiteSpace cur1 in
           if peek cur2 \<noteq> CHR '':'' then Some (Inl (Exception MISS_COLON))
           else
             (case parseValue fuel (skipWhiteSpace (drop 1 cur2)) of
                None \<Rightarrow> None
              | Some (Inl e) \<Rightarrow> Some (Inl e)
              | Some (Inr (value, cur3)) \<Rightarrow>
                  (let cur4 = skipWhiteSpace cur3;
                       object_data' = emplace (unescapeJson key) value object_data in
                   if peek cur4 = CHR '','' then parseObject_loop fuel object_data' (drop 1 cur4)
                   else if peek cur4 = CHR ''}'' then
                     Some (Inr (Value Object (object_ptr object_data'), drop 1 cur4))
                   else Some (Inl (Exception LACK_COMMA_OR_BRACE))))))"
  by pat_completeness auto
termination
  by (relation "measure (case_sum (case_sum fst fst) (case_sum fst (case_sum fst fst)))") simp_all

text \<open>
  \<open>parseStart\<close>: skip white space, the \<open>switch\<close> on the first character
  (\<open>parseStart_switch\<close>), skip white space again, and the test \<open>*cur_ != 0\<close> for what
  is left. \<open>parse\<close> runs it from the beginning of the text.
\<close>

definition parseStart_switch :: "nat \<Rightarrow> string \<Rightarrow> (exn + Value \<times> string) option" where
  "parseStart_switch fuel cur =
     (if peek cur = CHR ''{'' then parseObject fuel cur
      else if peek cur = CHR ''['' then parseArray fuel cur
      else Some (Inl (Exception NOT_JSON)))"

definition parseStart :: "nat \<Rightarrow> string \<Rightarrow> (exn + Value) option" where
  "parseStart fuel cur =
     (case parseStart_switch fuel (skipWhiteSpace cur) of
        None \<Rightarrow> None
      | Some (Inl e) \<Rightarrow> Some (Inl e)
      | Some (Inr (ret, cur2)) \<Rightarrow>
          (if peek (skipWhiteSpace cur2) \<noteq> CHR 0x00 then Some (Inl (Exception ROOT_NOT_ONE))
           else Some (Inr ret)))"

definition parse :: "string \<Rightarrow> (exn + Value) option" where
  "parse json_data = parseStart (3 * length json_data + 3) json_data"

text \<open>White space as \<open>skipWhiteSpace\<close> tests it: space, line feed, carriage return, tab.\<close>

definition whitespace :: "char \<Rightarrow> bool" where
  "whitespace c \<longleftrightarrow> c = CHR '' '' \<or> c = CHR 0x0A \<or> c = CHR 0x0D \<or> c = CHR 0x09"

text \<open>The first character of the text that is not white space, when there is one.\<close>

definition first_non_whitespace :: "string \<Rightarrow> char option" where
  "first_non_whitespace s = (case dropWhile whitespace s of [] \<Rightarrow> None | c # _ \<Rightarrow> Some c)"

text \<open>
  The twelve kinds the parser has a \<open>throw\<close> statement for, and the results whose
  exception, if any, is one of them.
\<close>

definition parser_kinds :: "ParseError set" where
  "parser_kinds =
     {NOT_JSON, ROOT_NOT_ONE, MISS_COLON, LACK_COMMA_OR_BRACE, LACK_COMMA_OR_BRACKET, BAD_KEY,
      BAD_VALUE, JSON_LENGTH, BAD_ESCAPE, BAD_BOOLEAN, BAD_NULL, BAD_NUMBER}"

definition throws_only :: "(exn + 'a) option \<Rightarrow> bool" where
  "throws_only r \<longleftrightarrow> (\<forall>e. r = Some (Inl e) \<longrightarrow> e \<in> Exception ` parser_kinds)"

section \<open>Construction and assignment of a Value\<close>

text \<open>
  One definition per public constructor of \<open>Value\<close>. The four numeric constructors store
  \<open>std::to_string(num)\<close>, which \<open>Value_number\<close> takes as its argument. \<open>deepCopy\<close> returns
  the new \<open>value_data_\<close>; a copy of a container is equal to the container. The defaulted
  move constructor gives the new value the source's two members. \<open>Value_tagged\<close> is the
  constructor template \<open>Value(ValueType type, Args&&... args)\<close>: it stores \<open>type\<close> and the
  \<open>value_t\<close> that \<open>args\<close> construct (its \<open>static_assert\<close> asks only that they construct
  one).
\<close>

definition Value_default :: Value where
  "Value_default = Value Null (string_alt [])"

definition Value_number :: "string \<Rightarrow> Value" where
  "Value_number to_string_num = Value Number (string_alt to_string_num)"

definition Value_bool :: "bool \<Rightarrow> Value" where
  "Value_bool boolean = Value Boolean (string_alt (if boolean then ''true'' else ''false''))"

definition Value_string :: "string \<Rightarrow> Value" where
  "Value_string str = Value String (string_alt str)"

definition Value_Array :: "Value list \<Rightarrow> Value" where
  "Value_Array arr = Value Array (array_ptr arr)"

definition Value_Object :: "(string \<times> Value) list \<Rightarrow> Value" where
  "Value_Object obj = Value Object (object_ptr obj)"

definition deepCopy :: "value_t \<Rightarrow> value_t" where
  "deepCopy rhs =
     (case rhs of
        string_alt pval \<Rightarrow> string_alt pval
      | object_ptr pval \<Rightarrow> object_ptr pval
      | array_ptr pval \<Rightarrow> array_ptr pval)"

definition Value_copy :: "Value \<Rightarrow> Value" where
  "Value_copy rhs = Value (type rhs) (deepCopy (value_data rhs))"

definition Value_move :: "Value \<Rightarrow> Value" where
  "Value_move rhs = Value (type rhs) (value_data rhs)"

definition Value_tagged :: "ValueType \<Rightarrow> value_t \<Rightarrow> Value" where
  "Value_tagged t args = Value t args"

text \<open>
  \<open>operator=\<close> writes into an object that exists, and its argument is a reference: the
  two may be parts of one tree, as in \<open>p.at(0) = p\<close>. An object is therefore named by the
  value it is reached from and the chain of \<open>at\<close> calls that leads to it, one \<open>step\<close> per
  call. \<open>at_path\<close> is that chain of calls, with the checks and exceptions of \<open>Value::at\<close>.
  \<open>cell\<close> is the object a reference obtained that way designates afterwards: the same place
  in the stored data, whatever the tags on the way have become. \<open>store\<close> changes the object
  at that place and leaves the rest of the tree as it is.
\<close>

datatype step = Index nat | Key string

fun at_path :: "Value \<Rightarrow> step list \<Rightarrow> exn + Value" where
  "at_path v [] = Inr v"
| "at_path v (Index idx # path) =
     (case at_idx v idx of Inl e \<Rightarrow> Inl e | Inr x \<Rightarrow> at_path x path)"
| "at_path v (Key key # path) =
     (case at_key v key of Inl e \<Rightarrow> Inl e | Inr x \<Rightarrow> at_path x path)"

function cell :: "Value \<Rightarrow> step list \<Rightarrow> Value option" where
  "cell v [] = Some v"
| "cell (Value t d) (Index idx # path) =
     (case d of
        array_ptr arr \<Rightarrow> if idx < length arr then cell (arr ! idx) path else None
      | _ \<Rightarrow> None)"
| "cell (Value t d) (Key key # path) =
     (case d of
        object_ptr obj \<Rightarrow> (case map_of obj key of None \<Rightarrow> None | Some x \<Rightarrow> cell x path)
      | _ \<Rightarrow> None)"
  by pat_completeness auto
termination
  by (relation "measure (\<lambda>(v, path). length path)") simp_all

function store :: "(Value \<Rightarrow> Value) \<Rightarrow> Value \<Rightarrow> step list \<Rightarrow> Value" where
  "store f v [] = f v"
| "store f (Value t d) (Index idx # path) =
     (case d of
        array_ptr arr \<Rightarrow>
          if idx < length arr
          then Value t (array_ptr (arr[idx := store f (arr ! idx) path]))
          else Value t d
      | _ \<Rightarrow> Value t d)"
| "store f (Value t d) (Key key # path) =
     (case d of
        object_ptr obj \<Rightarrow>
          Value t (object_ptr
            (map (\<lambda>kv. if fst kv = key then (fst kv, store f (snd kv) path) else kv) obj))
      | _ \<Rightarrow> Value t d)"
  by pat_completeness auto
termination
  by (relation "measure (\<lambda>(f, v, path). length path)") simp_all

text \<open>
  \<open>Value::operator=(const Value &rhs)\<close>, for a target \<open>root.at(...)\<close> and a source
  \<open>root.at(...)\<close> of one tree (two separate objects are two elements of one array): both
  references are evaluated; then \<open>type_ = rhs.type_\<close> is written into the target; then
  \<open>deepCopy(rhs.value_data_)\<close> reads the source as it is now and writes the copy into the
  target, whose tag is the one just written. The result is the tree after the assignment.
  The branch \<open>None\<close> is not reachable: the first write changes a tag only.
\<close>

definition Value_assign :: "Value \<Rightarrow> step list \<Rightarrow> step list \<Rightarrow> exn + Value" where
  "Value_assign root this rhs =
     (case at_path root this of
        Inl e \<Rightarrow> Inl e
      | Inr this0 \<Rightarrow>
          (case at_path root rhs of
             Inl e \<Rightarrow> Inl e
           | Inr rhs0 \<Rightarrow>
               let root1 = store (\<lambda>v. Value (type rhs0) (value_data v)) root this in
               (case cell root1 rhs of
                  None \<Rightarrow> Inr root1
                | Some rhs1 \<Rightarrow>
                    Inr (store (\<lambda>v. Value (type v) (deepCopy (value_data rhs1))) root1 this))))"

text \<open>The object at \<open>this\<close> is a proper part of the object at \<open>rhs\<close>.\<close>

definition inside :: "step list \<Rightarrow> step list \<Rightarrow> bool" where
  "inside this rhs \<longleftrightarrow> length rhs < length this \<and> take (length rhs) this = rhs"

text \<open>
  The invariant of the data model: the alternative that the tag stands for is the active
  one (\<open>tag_matches\<close>), in the value and in every value nested in it (\<open>synchronized\<close>).
\<close>

definition tag_matches :: "ValueType \<Rightarrow> value_t \<Rightarrow> bool" where
  "tag_matches t d =
     (case t of
        Array \<Rightarrow> (case d of array_ptr _ \<Rightarrow> True | _ \<Rightarrow> False)
      | Object \<Rightarrow> (case d of object_ptr _ \<Rightarrow> True | _ \<Rightarrow> False)
      | _ \<Rightarrow> (case d of string_alt _ \<Rightarrow> True | _ \<Rightarrow> False))"


text \<open>
  The values that can be built through the constructors, \<open>parse\<close> and copy assignment;
  the source of a copy construction may be a part of a value (a reference that \<open>at\<close>
  returned). The first flag says whether the caller may use the constructor template, the
  second whether the target of an assignment may be a part of its source.
\<close>

inductive constructed :: "bool \<Rightarrow> bool \<Rightarrow> Value \<Rightarrow> bool"
  for template :: bool and aliasing :: bool where
  default: "constructed template aliasing Value_default"
| number: "constructed template aliasing (Value_number s)"
| boolean: "constructed template aliasing (Value_bool b)"
| string: "constructed template aliasing (Value_string s)"
| copy: "constructed template aliasing root \<Longrightarrow> at_path root path = Inr rhs \<Longrightarrow>
     constructed template aliasing (Value_copy rhs)"
| move: "constructed template aliasing rhs \<Longrightarrow> constructed template aliasing (Value_move rhs)"
| array: "list_all (constructed template aliasing) arr \<Longrightarrow> constructed template aliasing (Value_Array arr)"
| object: "list_all (\<lambda>kv. constructed template aliasing (snd kv)) obj \<Longrightarrow>
     constructed template aliasing (Value_Object obj)"
| parsed: "parse json_data = Some (Inr v) \<Longrightarrow> constructed template aliasing v"
| assign: "constructed template aliasing root \<Longrightarrow> Value_assign root this rhs = Inr root' \<Longrightarrow>
     aliasing \<or> \<not> inside this rhs \<Longrightarrow> constructed template aliasing root'"
| tagged: "template \<Longrightarrow> constructed template aliasing (Value_tagged t args)"

section \<open>The codec loops as list recursions\<close>

text \<open>What one step of each loop does to the character (or pair) under the index.\<close>

definition escape_char :: "char \<Rightarrow> string" where
  "escape_char c = (case escape_switch c of None \<Rightarrow> [c] | Some i \<Rightarrow> escape_replaceStr ! i)"

fun unescape_rec :: "string \<Rightarrow> string" where
  "unescape_rec [] = []"
| "unescape_rec [c] =
     (if c \<noteq> CHR 0x5C then [c] else unescape_replaceStr ! unescape_switch (CHR 0x00))"
| "unescape_rec (c # d # s) =
     (if c \<noteq> CHR 0x5C then c # unescape_rec (d # s)
      else unescape_replaceStr ! unescape_switch d @ unescape_rec s)"

lemma escape_switch_range: "escape_switch c = Some i \<Longrightarrow> i < 7"
  by (auto simp: escape_switch_def split: if_splits)

lemma escape_replaceStr_length: "i < 7 \<Longrightarrow> length (escape_replaceStr ! i) = 2"
  by (auto simp: escape_replaceStr_def nth_Cons')

lemma unescape_switch_range: "unescape_switch c < 7"
  by (simp add: unescape_switch_def)

lemma unescape_replaceStr_length: "i < 7 \<Longrightarrow> length (unescape_replaceStr ! i) = 1"
  by (auto simp: unescape_replaceStr_def nth_Cons')

lemma escapeJson_loop_eq:
  "idx \<le> length s \<Longrightarrow>
   escapeJson_loop idx s = take idx s @ concat (map escape_char (drop idx s))"
proof (induction idx s rule: escapeJson_loop.induct)
  case (1 idx s)
  show ?case
  proof (cases "idx < length s")
    case False
    with 1(3) show ?thesis by (subst escapeJson_loop.simps) simp
  next
    case lt: True
    have dr: "drop idx s = s ! idx # drop (Suc idx) s"
      using lt by (simp add: Cons_nth_drop_Suc)
    show ?thesis
    proof (cases "escape_switch (s ! idx)")
      case None
      have "escapeJson_loop idx s = escapeJson_loop (idx + 1) s"
        using lt None by (subst escapeJson_loop.simps) simp
      also have "\<dots> = take (idx + 1) s @ concat (map escape_char (drop (idx + 1) s))"
        using 1(1)[OF lt None] lt by simp
      also have "\<dots> = take idx s @ concat (map escape_char (drop idx s))"
        using lt None by (simp add: dr take_Suc_conv_app_nth escape_char_def)
      finally show ?thesis .
    next
      case (Some i)
      then have i7: "i < 7" by (rule escape_switch_range)
      let ?r = "escape_replaceStr ! i"
      let ?s' = "replace s idx 1 ?r"
      have len: "length ?r = 2" using i7 by (rule escape_replaceStr_length)
      have le': "idx + 1 + 1 \<le> length ?s'"
        using lt len by (simp add: replace_def)
      have tk: "take (idx + 1 + 1) ?s' = take idx s @ ?r"
        using lt len by (simp add: replace_def)
      have dp: "drop (idx + 1 + 1) ?s' = drop (Suc idx) s"
        using lt len by (simp add: replace_def)
      have "escapeJson_loop idx s = escapeJson_loop (idx + 1 + 1) ?s'"
        using lt Some by (subst escapeJson_loop.simps) simp
      also have "\<dots> = take (idx + 1 + 1) ?s' @ concat (map escape_char (drop (idx + 1 + 1) ?s'))"
        using 1(2)[OF lt Some le'] .
      also have "\<dots> = take idx s @ concat (map escape_char (drop idx s))"
        using Some by (simp only: tk dp dr) (simp add: escape_char_def)
      finally show ?thesis .
    qed
  qed
qed

lemma escapeJson_eq: "escapeJson s = concat (map escape_char s)"
  by (simp add: escapeJson_def escapeJson_loop_eq)

lemma unescape_rec_ordinary:
  "c \<noteq> CHR 0x5C \<Longrightarrow> unescape_rec (c # t) = c # unescape_rec t"
  by (cases t) simp_all

lemma unescapeJson_loop_eq:
  "idx \<le> length s \<Longrightarrow> unescapeJson_loop idx s = take idx s @ unescape_rec (drop idx s)"
proof (induction idx s rule: unescapeJson_loop.induct)
  case (1 idx s)
  show ?case
  proof (cases "idx < length s")
    case False
    with 1(3) show ?thesis by (subst unescapeJson_loop.simps) simp
  next
    case lt: True
    have dr: "drop idx s = s ! idx # drop (Suc idx) s"
      using lt by (simp add: Cons_nth_drop_Suc)
    show ?thesis
    proof (cases "s ! idx \<noteq> CHR 0x5C")
      case True
      have "unescapeJson_loop idx s = unescapeJson_loop (idx + 1) s"
        using lt True by (subst unescapeJson_loop.simps) simp
      also have "\<dots> = take (idx + 1) s @ unescape_rec (drop (idx + 1) s)"
        using 1(1)[OF lt True] lt by simp
      also have "\<dots> = take idx s @ unescape_rec (drop idx s)"
        using lt True by (simp add: dr take_Suc_conv_app_nth unescape_rec_ordinary)
      finally show ?thesis .
    next
      case False
      let ?r = "unescape_replaceStr ! unescape_switch (char_at s (idx + 1))"
      let ?s' = "replace s idx 2 ?r"
      have len: "length ?r = 1"
        by (rule unescape_replaceStr_length[OF unescape_switch_range])
      have le': "idx + 1 \<le> length ?s'"
        using lt len by (simp add: replace_def)
      have tk: "take (idx + 1) ?s' = take idx s @ ?r"
        using lt len by (simp add: replace_def)
      have dp: "drop (idx + 1) ?s' = drop (idx + 2) s"
        using lt len by (simp add: replace_def)
      have "unescapeJson_loop idx s = unescapeJson_loop (idx + 1) ?s'"
        using lt False by (subst unescapeJson_loop.simps) simp
      also have "\<dots> = take (idx + 1) ?s' @ unescape_rec (drop (idx + 1) ?s')"
        using 1(2)[OF lt _ le'] False by simp
      also have "\<dots> = take idx s @ ?r @ unescape_rec (drop (idx + 2) s)"
        by (simp only: tk dp) simp
      also have "?r @ unescape_rec (drop (idx + 2) s) = unescape_rec (drop idx s)"
      proof (cases "Suc idx < length s")
        case True
        then have "drop (Suc idx) s = s ! Suc idx # drop (idx + 2) s"
          by (simp add: Cons_nth_drop_Suc)
        with True False show ?thesis by (simp add: dr char_at_def)
      next
        case short: False
        with lt have "drop (Suc idx) s = []" "drop (idx + 2) s = []" by simp_all
        with False short show ?thesis by (simp add: dr char_at_def)
      qed
      finally show ?thesis by simp
    qed
  qed
qed

lemma unescapeJson_eq: "unescapeJson s = unescape_rec s"
  by (simp add: unescapeJson_def unescapeJson_loop_eq)

lemma unescape_rec_escape_char: "unescape_rec (escape_char c @ s) = c # unescape_rec s"
  by (cases s)
     (auto simp: escape_char_def escape_switch_def escape_replaceStr_def
        unescape_replaceStr_def unescape_switch_def)

lemma unescapeJson_unrecognized:
  "d \<notin> set ''nt'' \<Longrightarrow> d \<notin> set ''br'' \<Longrightarrow> d \<noteq> CHR ''f'' \<Longrightarrow> d \<noteq> CHR 0x5C \<Longrightarrow>
   d \<noteq> CHR 0x22 \<Longrightarrow> unescapeJson (CHR 0x5C # d # s) = CHR 0x0A # unescapeJson s"
  by (simp add: unescapeJson_eq unescape_switch_def unescape_replaceStr_def)

lemma unescapeJson_escapeJson_any: "unescapeJson (escapeJson s) = s"
  unfolding unescapeJson_eq escapeJson_eq
  by (induction s) (simp_all add: unescape_rec_escape_char)

section \<open>The parser consumes input and returns\<close>

lemma skipWhiteSpace_eq: "skipWhiteSpace cur = dropWhile whitespace cur"
  by (induction cur) (simp_all add: whitespace_def)

lemma skipWhiteSpace_length: "length (skipWhiteSpace cur) \<le> length cur"
  by (induction cur) auto

lemma skipDigit_length: "length (skipDigit cur) \<le> length cur"
  by (induction cur) auto

lemma skipDigit_digit: "isdigit (peek cur) \<Longrightarrow> length (skipDigit cur) < length cur"
  using skipDigit_length [of "tl cur"]
  by (cases cur) (auto simp: peek_def isdigit_def)

lemma peek_nonempty: "peek cur \<noteq> CHR 0x00 \<Longrightarrow> cur \<noteq> []"
  by (auto simp: peek_def)

lemma parseRawString_loop_length: "parseRawString_loop cur = Inr cur' \<Longrightarrow> length cur' \<le> length cur"
proof (induction cur arbitrary: cur' rule: parseRawString_loop.induct)
  case 1
  then show ?case by simp
next
  case (2 c cur)
  show ?case
  proof (cases "c = CHR 0x5C")
    case True
    with "2.prems" obtain d rest where cur: "cur = d # rest"
      and mem: "d \<in> set parseRawString_cases"
      and r: "parseRawString_loop rest = Inr cur'"
      by (auto split: list.splits if_splits)
    from "2.IH"(1)[OF True cur mem r] show ?thesis by (simp add: cur)
  next
    case False
    show ?thesis
    proof (cases "c = CHR 0x22")
      case True
      with False "2.prems" show ?thesis by simp
    next
      case q: False
      with False "2.prems" have "parseRawString_loop cur = Inr cur'" by simp
      from "2.IH"(2)[OF False q this] show ?thesis by simp
    qed
  qed
qed

lemma parseRawString_shorter: "parseRawString cur = Inr (raw, cur') \<Longrightarrow> length cur' < length cur"
  by (cases cur)
     (auto simp: parseRawString_def peek_def Let_def split: if_splits sum.splits
           dest!: parseRawString_loop_length)

lemma parseString_stores_raw:
  "parseString cur = Inr (v, cur') \<Longrightarrow>
   \<exists>raw. parseRawString cur = Inr (raw, cur') \<and> v = Value String (string_alt raw)"
  by (auto simp: parseString_def split: sum.splits)

lemma parseString_shorter: "parseString cur = Inr (v, cur') \<Longrightarrow> length cur' < length cur"
  by (auto simp: parseString_def split: sum.splits dest: parseRawString_shorter)

lemma take_eq_imp_le: "take n cur = s \<Longrightarrow> length s \<le> length cur"
  by auto

lemma parseBoolean_shorter:
  assumes "parseBoolean cur = Inr (v, cur')"
  shows "length cur' < length cur"
proof -
  from assms consider "take 4 cur = ''true''" "cur' = drop 4 cur"
    | "take 5 cur = ''false''" "cur' = drop 5 cur"
    by (auto simp: parseBoolean_def Let_def split: if_splits)
  then show ?thesis
  proof cases
    case 1
    from take_eq_imp_le [OF 1(1)] show ?thesis by (simp add: 1(2))
  next
    case 2
    from take_eq_imp_le [OF 2(1)] show ?thesis by (simp add: 2(2))
  qed
qed

lemma parseNull_shorter:
  assumes "parseNull cur = Inr (v, cur')"
  shows "length cur' < length cur"
proof -
  from assms have 1: "take 4 cur = ''null''" "cur' = drop 4 cur"
    by (auto simp: parseNull_def Let_def split: if_splits)
  from take_eq_imp_le [OF 1(1)] show ?thesis by (simp add: 1(2))
qed

lemma parseNumber_shorter:
  assumes "parseNumber cur = Inr (v, cur')"
  shows "length cur' < length cur"
proof -
  define cur1 where "cur1 = (if peek cur = CHR ''-'' then drop 1 cur else cur)"
  have l1: "length cur1 \<le> length cur" by (simp add: cur1_def)
  from assms have dig: "isdigit (peek cur1)"
    by (auto simp: parseNumber_def Let_def cur1_def split: if_splits)
  then have l2: "length (skipDigit cur1) < length cur1" by (rule skipDigit_digit)
  define cur2 where "cur2 = skipDigit cur1"
  have le3: "length (skipDigit (drop 1 cur2)) \<le> length cur2"
    using skipDigit_length [of "drop 1 cur2"] by simp
  have le5: "\<And>c. length (skipDigit (if c then drop 1 (drop 1 cur2) else drop 1 cur2)) \<le> length cur2"
    subgoal for c using skipDigit_length [of "if c then drop 1 (drop 1 cur2) else drop 1 cur2"]
      by (simp split: if_splits) 
    done
  from assms have "cur' = cur2 \<or> cur' = skipDigit (drop 1 cur2)
     \<or> cur' = skipDigit (if peek (drop 1 cur2) = CHR ''+'' \<or> peek (drop 1 cur2) = CHR ''-''
                          then drop 1 (drop 1 cur2) else drop 1 cur2)"
    by (auto simp: parseNumber_def Let_def cur1_def[symmetric] cur2_def[symmetric] split: if_splits)
  with l1 l2 le3 le5 show ?thesis
    unfolding cur2_def by (metis (no_types, lifting) le_trans linorder_not_le)
qed

lemma peek_eq_nonempty: "peek cur = c \<Longrightarrow> c \<noteq> CHR 0x00 \<Longrightarrow> length (drop 1 cur) < length cur"
  by (cases cur) (auto simp: peek_def)

lemma parse_shorter_all:
  "(\<forall>cur v cur'. parseValue n cur = Some (Inr (v, cur')) \<longrightarrow> length cur' < length cur) \<and>
   (\<forall>cur v cur'. parseArray n cur = Some (Inr (v, cur')) \<longrightarrow> length cur' < length cur) \<and>
   (\<forall>a cur v cur'. parseArray_loop n a cur = Some (Inr (v, cur')) \<longrightarrow> length cur' < length cur) \<and>
   (\<forall>cur v cur'. parseObject n cur = Some (Inr (v, cur')) \<longrightarrow> length cur' < length cur) \<and>
   (\<forall>m cur v cur'. parseObject_loop n m cur = Some (Inr (v, cur')) \<longrightarrow> length cur' < length cur)"
proof (induction n)
  case 0
  show ?case by simp
next
  case (Suc n)
  then have V: "\<And>cur v cur'. parseValue n cur = Some (Inr (v, cur')) \<Longrightarrow> length cur' < length cur"
    and A: "\<And>cur v cur'. parseArray n cur = Some (Inr (v, cur')) \<Longrightarrow> length cur' < length cur"
    and AL: "\<And>a cur v cur'. parseArray_loop n a cur = Some (Inr (v, cur')) \<Longrightarrow> length cur' < length cur"
    and OB: "\<And>cur v cur'. parseObject n cur = Some (Inr (v, cur')) \<Longrightarrow> length cur' < length cur"
    and OL: "\<And>m cur v cur'. parseObject_loop n m cur = Some (Inr (v, cur')) \<Longrightarrow> length cur' < length cur"
    by blast+
  have V': "length cur' < length cur" if "parseValue (Suc n) cur = Some (Inr (v, cur'))" for cur v cur'
    using that
    by (auto split: if_splits
          dest: parseBoolean_shorter parseNull_shorter parseString_shorter parseNumber_shorter A OB)
  have A': "length cur' < length cur" if h: "parseArray (Suc n) cur = Some (Inr (v, cur'))" for cur v cur'
  proof -
    let ?cur1 = "skipWhiteSpace (drop 1 cur)"
    have l1: "length ?cur1 \<le> length cur"
      using skipWhiteSpace_length [of "drop 1 cur"] by simp
    show ?thesis
    proof (cases "peek ?cur1 = CHR '']''")
      case True
      with h have "cur' = drop 1 ?cur1" by (simp add: Let_def)
      with peek_eq_nonempty [OF True] l1 show ?thesis by simp
    next
      case False
      with h have "parseArray_loop n [] ?cur1 = Some (Inr (v, cur'))" by (simp add: Let_def)
      from AL [OF this] l1 show ?thesis by simp
    qed
  qed
  have AL': "length cur' < length cur" if h: "parseArray_loop (Suc n) a cur = Some (Inr (v, cur'))"
    for a cur v cur'
  proof -
    from h obtain x cur1 where pv: "parseValue n (skipWhiteSpace cur) = Some (Inr (x, cur1))"
      by (auto split: option.splits sum.splits)
    let ?cur2 = "skipWhiteSpace cur1"
    from V [OF pv] skipWhiteSpace_length [of cur] skipWhiteSpace_length [of cur1]
    have l2: "length ?cur2 < length cur" by simp
    from h pv consider
        "parseArray_loop n (a @ [x]) (drop 1 ?cur2) = Some (Inr (v, cur'))"
      | "cur' = drop 1 ?cur2"
      by (auto simp: Let_def split: if_splits)
    then show ?thesis
    proof cases
      case 1
      from AL [OF 1] l2 show ?thesis by simp
    next
      case 2
      with l2 show ?thesis by simp
    qed
  qed
  have OB': "length cur' < length cur" if h: "parseObject (Suc n) cur = Some (Inr (v, cur'))" for cur v cur'
  proof -
    let ?cur1 = "skipWhiteSpace (drop 1 cur)"
    have l1: "length ?cur1 \<le> length cur"
      using skipWhiteSpace_length [of "drop 1 cur"] by simp
    show ?thesis
    proof (cases "peek ?cur1 = CHR ''}''")
      case True
      with h have "cur' = drop 1 ?cur1" by (simp add: Let_def)
      with peek_eq_nonempty [OF True] l1 show ?thesis by simp
    next
      case False
      with h have "parseObject_loop n [] ?cur1 = Some (Inr (v, cur'))" by (simp add: Let_def)
      from OL [OF this] l1 show ?thesis by simp
    qed
  qed
  have OL': "length cur' < length cur" if h: "parseObject_loop (Suc n) m cur = Some (Inr (v, cur'))"
    for m cur v cur'
  proof -
    from h obtain key cur1 where rs: "parseRawString (skipWhiteSpace cur) = Inr (key, cur1)"
      by (auto split: sum.splits)
    let ?cur2 = "skipWhiteSpace cur1"
    from parseRawString_shorter [OF rs] skipWhiteSpace_length [of cur] skipWhiteSpace_length [of cur1]
    have l2: "length ?cur2 < length cur" by simp
    from h rs have colon: "peek ?cur2 = CHR '':''"
      by (auto simp: Let_def split: if_splits)
    let ?cur2' = "skipWhiteSpace (drop 1 ?cur2)"
    from skipWhiteSpace_length [of "drop 1 ?cur2"] l2 have l2': "length ?cur2' < length cur" by simp
    from h rs colon obtain x cur3 where pv: "parseValue n ?cur2' = Some (Inr (x, cur3))"
      by (auto simp: Let_def split: option.splits sum.splits)
    let ?cur4 = "skipWhiteSpace cur3"
    from V [OF pv] l2' skipWhiteSpace_length [of cur3]
    have l4: "length ?cur4 < length cur" by simp
    from h rs colon pv consider
        "parseObject_loop n (emplace (unescapeJson key) x m) (drop 1 ?cur4) = Some (Inr (v, cur'))"
      | "cur' = drop 1 ?cur4"
      by (auto simp: Let_def split: if_splits)
    then show ?thesis
    proof cases
      case 1
      from OL [OF 1] l4 show ?thesis by simp
    next
      case 2
      with l4 show ?thesis by simp
    qed
  qed
  from V' A' AL' OB' OL' show ?case by blast
qed

lemmas parse_shorter = parse_shorter_all [THEN conjunct1, rule_format]

lemma peek_drop_le: "peek cur = c \<Longrightarrow> c \<noteq> CHR 0x00 \<Longrightarrow> Suc (length (drop 1 cur)) \<le> length cur"
  by (cases cur) (auto simp: peek_def)

lemma parse_fuel_all:
  "(\<forall>cur. 3 * length cur + 1 \<le> n \<longrightarrow> parseValue n cur \<noteq> None) \<and>
   (\<forall>cur. cur \<noteq> [] \<longrightarrow> 3 * length cur \<le> n \<longrightarrow> parseArray n cur \<noteq> None) \<and>
   (\<forall>a cur. 3 * length cur + 2 \<le> n \<longrightarrow> parseArray_loop n a cur \<noteq> None) \<and>
   (\<forall>cur. cur \<noteq> [] \<longrightarrow> 3 * length cur \<le> n \<longrightarrow> parseObject n cur \<noteq> None) \<and>
   (\<forall>m cur. 3 * length cur + 2 \<le> n \<longrightarrow> parseObject_loop n m cur \<noteq> None)"
proof (induction n)
  case 0
  show ?case by simp
next
  case (Suc n)
  then have V: "\<And>cur. 3 * length cur + 1 \<le> n \<Longrightarrow> parseValue n cur \<noteq> None"
    and A: "\<And>cur. cur \<noteq> [] \<Longrightarrow> 3 * length cur \<le> n \<Longrightarrow> parseArray n cur \<noteq> None"
    and AL: "\<And>a cur. 3 * length cur + 2 \<le> n \<Longrightarrow> parseArray_loop n a cur \<noteq> None"
    and OB: "\<And>cur. cur \<noteq> [] \<Longrightarrow> 3 * length cur \<le> n \<Longrightarrow> parseObject n cur \<noteq> None"
    and OL: "\<And>m cur. 3 * length cur + 2 \<le> n \<Longrightarrow> parseObject_loop n m cur \<noteq> None"
    by blast+
  have V': "parseValue (Suc n) cur \<noteq> None" if h: "3 * length cur + 1 \<le> Suc n" for cur
  proof -
    have "parseArray n cur \<noteq> None" if "peek cur = CHR ''[''"
      using that h A [of cur] by (cases cur) (auto simp: peek_def)
    moreover have "parseObject n cur \<noteq> None" if "peek cur = CHR ''{''"
      using that h OB [of cur] by (cases cur) (auto simp: peek_def)
    ultimately show ?thesis by simp
  qed
  have A': "parseArray (Suc n) cur \<noteq> None" if ne: "cur \<noteq> []" and h: "3 * length cur \<le> Suc n" for cur
  proof -
    let ?cur1 = "skipWhiteSpace (drop 1 cur)"
    from ne have "Suc (length ?cur1) \<le> length cur"
      using skipWhiteSpace_length [of "drop 1 cur"] by (cases cur) auto
    with h have "3 * length ?cur1 + 2 \<le> n" by simp
    from AL [OF this] show ?thesis by (simp add: Let_def)
  qed
  have OB': "parseObject (Suc n) cur \<noteq> None" if ne: "cur \<noteq> []" and h: "3 * length cur \<le> Suc n" for cur
  proof -
    let ?cur1 = "skipWhiteSpace (drop 1 cur)"
    from ne have "Suc (length ?cur1) \<le> length cur"
      using skipWhiteSpace_length [of "drop 1 cur"] by (cases cur) auto
    with h have "3 * length ?cur1 + 2 \<le> n" by simp
    from OL [OF this] show ?thesis by (simp add: Let_def)
  qed
  have AL': "parseArray_loop (Suc n) a cur \<noteq> None" if h: "3 * length cur + 2 \<le> Suc n" for a cur
  proof -
    from h skipWhiteSpace_length [of cur] have "3 * length (skipWhiteSpace cur) + 1 \<le> n" by simp
    from V [OF this] obtain r where pv: "parseValue n (skipWhiteSpace cur) = Some r" by blast
    show ?thesis
    proof (cases r)
      case (Inl e)
      with pv show ?thesis by simp
    next
      case (Inr p)
      obtain x cur1 where p: "p = (x, cur1)" by (cases p)
      let ?cur2 = "skipWhiteSpace cur1"
      from parse_shorter [OF pv [unfolded Inr p]] skipWhiteSpace_length [of cur]
        skipWhiteSpace_length [of cur1]
      have l2: "length ?cur2 < length cur" by simp
      have "parseArray_loop n (a @ [x]) (drop 1 ?cur2) \<noteq> None"
        using AL [of "drop 1 ?cur2" "a @ [x]"] l2 h by simp
      with pv Inr p show ?thesis by (simp add: Let_def)
    qed
  qed
  have OL': "parseObject_loop (Suc n) m cur \<noteq> None" if h: "3 * length cur + 2 \<le> Suc n" for m cur
  proof (cases "parseRawString (skipWhiteSpace cur)")
    case (Inl e)
    then show ?thesis by simp
  next
    case (Inr p)
    obtain key cur1 where p: "p = (key, cur1)" by (cases p)
    let ?cur2 = "skipWhiteSpace cur1"
    from parseRawString_shorter [OF Inr [unfolded p]] skipWhiteSpace_length [of cur]
      skipWhiteSpace_length [of cur1]
    have l2: "length ?cur2 < length cur" by simp
    let ?cur2' = "skipWhiteSpace (drop 1 ?cur2)"
    from skipWhiteSpace_length [of "drop 1 ?cur2"] l2 have l2': "length ?cur2' < length cur" by simp
    with h have "3 * length ?cur2' + 1 \<le> n" by simp
    from V [OF this] obtain r where pv: "parseValue n ?cur2' = Some r" by blast
    show ?thesis
    proof (cases r)
      case e: (Inl e)
      with pv Inr p show ?thesis by (simp add: Let_def)
    next
      case r: (Inr q)
      obtain x cur3 where q: "q = (x, cur3)" by (cases q)
      let ?cur4 = "skipWhiteSpace cur3"
      from parse_shorter [OF pv [unfolded r q]] l2' skipWhiteSpace_length [of cur3]
      have l4: "length ?cur4 < length cur" by simp
      have "parseObject_loop n (emplace (unescapeJson key) x m) (drop 1 ?cur4) \<noteq> None"
        using OL [of "drop 1 ?cur4" "emplace (unescapeJson key) x m"] l4 h by simp
      with pv Inr p r q show ?thesis by (simp add: Let_def)
    qed
  qed
  from V' A' AL' OB' OL' show ?case by blast
qed

lemma parseStart_enough: "3 * length json_data + 3 \<le> fuel \<Longrightarrow> parseStart fuel json_data \<noteq> None"
proof -
  assume h: "3 * length json_data + 3 \<le> fuel"
  let ?cur1 = "skipWhiteSpace json_data"
  have l: "3 * length ?cur1 \<le> fuel"
    using skipWhiteSpace_length [of json_data] h by simp
  have "parseStart_switch fuel ?cur1 \<noteq> None"
  proof (cases "?cur1 = []")
    case True
    then show ?thesis by (simp add: parseStart_switch_def peek_def)
  next
    case False
    with l parse_fuel_all [of fuel] show ?thesis
      by (simp add: parseStart_switch_def)
  qed
  then show ?thesis
    by (auto simp: parseStart_def split: option.splits sum.splits)
qed

lemma parse_returns: "\<exists>r. parse json_data = Some r"
  using parseStart_enough [of json_data "3 * length json_data + 3"]
  by (simp add: parse_def)

lemma parse_fuel_Suc_all:
  "(\<forall>cur r. parseValue n cur = Some r \<longrightarrow> parseValue (Suc n) cur = Some r) \<and>
   (\<forall>cur r. parseArray n cur = Some r \<longrightarrow> parseArray (Suc n) cur = Some r) \<and>
   (\<forall>a cur r. parseArray_loop n a cur = Some r \<longrightarrow> parseArray_loop (Suc n) a cur = Some r) \<and>
   (\<forall>cur r. parseObject n cur = Some r \<longrightarrow> parseObject (Suc n) cur = Some r) \<and>
   (\<forall>m cur r. parseObject_loop n m cur = Some r \<longrightarrow> parseObject_loop (Suc n) m cur = Some r)"
proof (induction n)
  case 0
  show ?case by simp
next
  case (Suc n)
  then have V: "\<And>cur r. parseValue n cur = Some r \<Longrightarrow> parseValue (Suc n) cur = Some r"
    and A: "\<And>cur r. parseArray n cur = Some r \<Longrightarrow> parseArray (Suc n) cur = Some r"
    and AL: "\<And>a cur r. parseArray_loop n a cur = Some r \<Longrightarrow> parseArray_loop (Suc n) a cur = Some r"
    and OB: "\<And>cur r. parseObject n cur = Some r \<Longrightarrow> parseObject (Suc n) cur = Some r"
    and OL: "\<And>m cur r. parseObject_loop n m cur = Some r \<Longrightarrow> parseObject_loop (Suc n) m cur = Some r"
    by blast+
  have V': "parseValue (Suc (Suc n)) cur = Some r" if h: "parseValue (Suc n) cur = Some r" for cur r
    using h by (subst parseValue.simps) (auto split: if_splits dest: A OB)
  have A': "parseArray (Suc (Suc n)) cur = Some r" if h: "parseArray (Suc n) cur = Some r" for cur r
    using h by (subst parseArray.simps) (auto simp: Let_def split: if_splits dest: AL)
  have OB': "parseObject (Suc (Suc n)) cur = Some r" if h: "parseObject (Suc n) cur = Some r" for cur r
    using h by (subst parseObject.simps) (auto simp: Let_def split: if_splits dest: OL)
  have AL': "parseArray_loop (Suc (Suc n)) a cur = Some r"
    if h: "parseArray_loop (Suc n) a cur = Some r" for a cur r
  proof -
    from h obtain r1 where pv: "parseValue n (skipWhiteSpace cur) = Some r1"
      by (auto split: option.splits)
    note pv' = V [OF pv]
    show ?thesis
    proof (cases r1)
      case (Inl e)
      with h pv pv' show ?thesis by (subst parseArray_loop.simps) auto
    next
      case (Inr p)
      obtain x cur1 where p: "p = (x, cur1)" by (cases p)
      from h pv pv' Inr p show ?thesis
        by (subst parseArray_loop.simps) (auto simp: Let_def split: if_splits dest: AL)
    qed
  qed
  have OL': "parseObject_loop (Suc (Suc n)) m cur = Some r"
    if h: "parseObject_loop (Suc n) m cur = Some r" for m cur r
  proof (cases "parseRawString (skipWhiteSpace cur)")
    case (Inl e)
    with h show ?thesis by (subst parseObject_loop.simps) simp
  next
    case (Inr p)
    obtain key cur1 where p: "p = (key, cur1)" by (cases p)
    let ?cur2 = "skipWhiteSpace cur1"
    show ?thesis
    proof (cases "peek ?cur2 \<noteq> CHR '':''")
      case True
      with h Inr p show ?thesis by (subst parseObject_loop.simps) (simp add: Let_def)
    next
      case False
      let ?cur2' = "skipWhiteSpace (drop 1 ?cur2)"
      from h Inr p False obtain r1 where pv: "parseValue n ?cur2' = Some r1"
        by (auto simp: Let_def split: option.splits)
      note pv' = V [OF pv]
      show ?thesis
      proof (cases r1)
        case e: (Inl e)
        with h pv pv' Inr p False show ?thesis
          by (subst parseObject_loop.simps) (auto simp: Let_def)
      next
        case q: (Inr q)
        obtain x cur3 where qq: "q = (x, cur3)" by (cases q)
        from h pv pv' Inr p False q qq show ?thesis
          by (subst parseObject_loop.simps) (auto simp: Let_def split: if_splits dest: OL)
      qed
    qed
  qed
  from V' A' AL' OB' OL' show ?case by blast
qed

lemma parseStart_switch_fuel_Suc:
  "parseStart_switch n cur = Some r \<Longrightarrow> parseStart_switch (Suc n) cur = Some r"
  using parse_fuel_Suc_all [of n] by (auto simp: parseStart_switch_def split: if_splits)

lemma parseStart_fuel_Suc:
  assumes "parseStart n cur = Some r"
  shows "parseStart (Suc n) cur = Some r"
proof -
  from assms obtain r1 where 1: "parseStart_switch n (skipWhiteSpace cur) = Some r1"
    by (auto simp: parseStart_def split: option.splits)
  from assms show ?thesis
    by (simp add: parseStart_def 1 parseStart_switch_fuel_Suc [OF 1])
qed

lemma parseStart_fuel_mono:
  assumes "parseStart n cur = Some r" and "n \<le> n'"
  shows "parseStart n' cur = Some r"
  using assms(2,1) by (induction rule: dec_induct) (auto dest: parseStart_fuel_Suc)

lemma parse_fuel_irrelevant:
  assumes "3 * length json_data + 3 \<le> fuel"
  shows "parseStart fuel json_data = parse json_data"
proof -
  from parse_returns obtain r where r: "parse json_data = Some r" by blast
  then have "parseStart (3 * length json_data + 3) json_data = Some r" by (simp add: parse_def)
  from parseStart_fuel_mono [OF this assms] r show ?thesis by simp
qed

section \<open>The exceptions of the parser\<close>

lemma parseRawString_loop_kind:
  "parseRawString_loop cur = Inl e \<Longrightarrow> e = Exception BAD_ESCAPE"
proof (induction cur rule: parseRawString_loop.induct)
  case 1
  then show ?case by simp
next
  case (2 c cur)
  show ?case
  proof (cases "c = CHR 0x5C")
    case True
    show ?thesis
    proof (cases cur)
      case Nil
      with True "2.prems" show ?thesis by simp
    next
      case (Cons d rest)
      show ?thesis
      proof (cases "d \<in> set parseRawString_cases")
        case mem: True
        with True Cons "2.prems" have "parseRawString_loop rest = Inl e" by simp
        from "2.IH"(1)[OF True Cons mem this] show ?thesis .
      next
        case False
        with True Cons "2.prems" show ?thesis by simp
      qed
    qed
  next
    case False
    show ?thesis
    proof (cases "c = CHR 0x22")
      case True
      with False "2.prems" show ?thesis by simp
    next
      case q: False
      with False "2.prems" have "parseRawString_loop cur = Inl e" by simp
      from "2.IH"(2)[OF False q this] show ?thesis .
    qed
  qed
qed

lemma parseRawString_kind:
  "parseRawString cur = Inl e \<Longrightarrow> e \<in> Exception ` {BAD_KEY, BAD_ESCAPE, JSON_LENGTH}"
  by (auto simp: parseRawString_def Let_def split: if_splits sum.splits
        dest: parseRawString_loop_kind)

lemma parseString_kind:
  "parseString cur = Inl e \<Longrightarrow> e \<in> Exception ` {BAD_KEY, BAD_ESCAPE, JSON_LENGTH}"
  by (auto simp: parseString_def split: sum.splits prod.splits dest: parseRawString_kind)

lemma parseBoolean_kind: "parseBoolean cur = Inl e \<Longrightarrow> e = Exception BAD_BOOLEAN"
  by (auto simp: parseBoolean_def Let_def split: if_splits)

lemma parseNull_kind: "parseNull cur = Inl e \<Longrightarrow> e = Exception BAD_NULL"
  by (auto simp: parseNull_def Let_def split: if_splits)

lemma parseNumber_kind: "parseNumber cur = Inl e \<Longrightarrow> e = Exception BAD_NUMBER"
  by (auto simp: parseNumber_def Let_def split: if_splits)

lemma throws_only_simps [simp]:
  "throws_only None"
  "throws_only (Some (Inr x))"
  "throws_only (Some (Inl e)) \<longleftrightarrow> e \<in> Exception ` parser_kinds"
  by (auto simp: throws_only_def)

lemma parser_kinds_mem [simp]:
  "NOT_JSON \<in> parser_kinds" "ROOT_NOT_ONE \<in> parser_kinds" "MISS_COLON \<in> parser_kinds"
  "LACK_COMMA_OR_BRACE \<in> parser_kinds" "LACK_COMMA_OR_BRACKET \<in> parser_kinds"
  "BAD_KEY \<in> parser_kinds" "BAD_VALUE \<in> parser_kinds" "JSON_LENGTH \<in> parser_kinds"
  "BAD_ESCAPE \<in> parser_kinds" "BAD_BOOLEAN \<in> parser_kinds" "BAD_NULL \<in> parser_kinds"
  "BAD_NUMBER \<in> parser_kinds" "MISS_VALUE \<notin> parser_kinds" "BAD_TYPE \<notin> parser_kinds"
  by (simp_all add: parser_kinds_def)

lemma throws_only_leaf:
  "throws_only (Some (parseBoolean cur))" "throws_only (Some (parseNull cur))"
  "throws_only (Some (parseString cur))" "throws_only (Some (parseNumber cur))"
  by (auto simp: throws_only_def
        dest: parseBoolean_kind parseNull_kind parseString_kind parseNumber_kind)

lemma throws_only_rawString:
  "parseRawString cur = Inl e \<Longrightarrow> e \<in> Exception ` parser_kinds"
  by (auto dest: parseRawString_kind)

lemma parse_throws_all:
  "(\<forall>cur. throws_only (parseValue n cur)) \<and>
   (\<forall>cur. throws_only (parseArray n cur)) \<and>
   (\<forall>a cur. throws_only (parseArray_loop n a cur)) \<and>
   (\<forall>cur. throws_only (parseObject n cur)) \<and>
   (\<forall>m cur. throws_only (parseObject_loop n m cur))"
proof (induction n)
  case 0
  show ?case by simp
next
  case (Suc n)
  then have V: "\<And>cur. throws_only (parseValue n cur)"
    and A: "\<And>cur. throws_only (parseArray n cur)"
    and AL: "\<And>a cur. throws_only (parseArray_loop n a cur)"
    and OB: "\<And>cur. throws_only (parseObject n cur)"
    and OL: "\<And>m cur. throws_only (parseObject_loop n m cur)"
    by blast+
  have V': "throws_only (parseValue (Suc n) cur)" for cur
    by (simp add: throws_only_leaf A OB)
  have A': "throws_only (parseArray (Suc n) cur)" for cur
    by (simp add: Let_def AL)
  have OB': "throws_only (parseObject (Suc n) cur)" for cur
    by (simp add: Let_def OL)
  have AL': "throws_only (parseArray_loop (Suc n) a cur)" for a cur
  proof (cases "parseValue n (skipWhiteSpace cur)")
    case None
    then show ?thesis by simp
  next
    case (Some r)
    show ?thesis
    proof (cases r)
      case (Inl e)
      with Some V [of "skipWhiteSpace cur"] show ?thesis by simp
    next
      case (Inr p)
      with Some show ?thesis by (cases p) (simp add: Let_def AL)
    qed
  qed
  have OL': "throws_only (parseObject_loop (Suc n) m cur)" for m cur
  proof (cases "parseRawString (skipWhiteSpace cur)")
    case (Inl e)
    then show ?thesis by (simp add: throws_only_rawString)
  next
    case (Inr p)
    obtain key cur1 where p: "p = (key, cur1)" by (cases p)
    let ?cur2' = "skipWhiteSpace (drop 1 (skipWhiteSpace cur1))"
    show ?thesis
    proof (cases "parseValue n ?cur2'")
      case None
      with Inr p show ?thesis by (simp add: Let_def)
    next
      case (Some r)
      show ?thesis
      proof (cases r)
        case e: (Inl e)
        with Some Inr p V [of ?cur2'] show ?thesis by (simp add: Let_def)
      next
        case q: (Inr q)
        with Some Inr p show ?thesis by (cases q) (simp add: Let_def OL)
      qed
    qed
  qed
  from V' A' AL' OB' OL' show ?case by blast
qed

lemma parse_throws_only: "throws_only (parse json_data)"
proof -
  have "throws_only (parseStart_switch fuel cur)" for fuel cur
    using parse_throws_all [of fuel] by (simp add: parseStart_switch_def)
  then show ?thesis
    unfolding parse_def parseStart_def
    by (auto simp: throws_only_def split: option.splits sum.splits if_splits)
qed

lemma to_string_throws:
  "to_string v = Inl e \<Longrightarrow> e = bad_variant_access"
  "Object_to_string_loop obj str = Inl e \<Longrightarrow> e = bad_variant_access"
  "Array_to_string_loop arr str = Inl e \<Longrightarrow> e = bad_variant_access"
proof (induction v and obj str and arr str
       rule: to_string_Object_to_string_loop_Array_to_string_loop.induct)
  case (1 t d)
  then show ?case
    by (auto split: ValueType.splits value_t.splits sum.splits)
next
  case (2 str)
  then show ?case by simp
next
  case (3 key "value" rest str)
  then show ?case by (auto split: sum.splits)
next
  case (4 str)
  then show ?case by simp
next
  case (5 "value" rest str)
  then show ?case by (auto split: sum.splits)
qed

lemma accessor_throws:
  "to_object v = Inl e \<Longrightarrow> e \<in> {Exception BAD_TYPE, bad_variant_access}"
  "to_array v = Inl e \<Longrightarrow> e \<in> {Exception BAD_TYPE, bad_variant_access}"
  "at_key v key = Inl e \<Longrightarrow> e \<in> {Exception BAD_TYPE, bad_variant_access, out_of_range}"
  "at_idx v idx = Inl e \<Longrightarrow> e \<in> {Exception BAD_TYPE, bad_variant_access, out_of_range}"
  by (auto simp: to_object_def to_array_def at_key_def at_idx_def Object_at_def Array_at_def
        split: if_splits value_t.splits sum.splits option.splits)

section \<open>Entries of the object under construction\<close>

lemma map_of_insort_key:
  "k \<notin> fst ` set m \<Longrightarrow> map_of (insort_key fst (k, v) m) = (map_of m)(k \<mapsto> v)"
  by (induction m) (auto simp: fun_upd_twist)

lemma map_of_emplace:
  "map_of (emplace k v m) = (case map_of m k of None \<Rightarrow> (map_of m)(k \<mapsto> v) | Some old \<Rightarrow> map_of m)"
proof (cases "k \<in> fst ` set m")
  case True
  then obtain old where "map_of m k = Some old"
    by (metis domD dom_map_of_conv_image_fst)
  with True show ?thesis by (simp add: emplace_def)
next
  case False
  then have "map_of m k = None" by (simp add: map_of_eq_None_iff)
  with False show ?thesis by (simp add: emplace_def map_of_insort_key)
qed

lemma map_of_emplace_keeps:
  "map_of m k' = Some v' \<Longrightarrow> map_of (emplace k v m) k' = Some v'"
  by (auto simp: map_of_emplace split: option.splits)

lemma parseObject_loop_keeps:
  "parseObject_loop fuel object_data cur = Some (Inr (ret, cur')) \<Longrightarrow>
   \<exists>final. ret = Value Object (object_ptr final)
     \<and> (\<forall>k v. map_of object_data k = Some v \<longrightarrow> map_of final k = Some v)"
proof (induction fuel arbitrary: object_data cur)
  case 0
  then show ?case by simp
next
  case (Suc fuel)
  from Suc.prems show ?case
    by (auto simp: Let_def map_of_emplace_keeps
          split: sum.splits prod.splits option.splits if_splits
          dest!: Suc.IH)
qed

lemma skipWhiteSpace_idem: "skipWhiteSpace (skipWhiteSpace cur) = skipWhiteSpace cur"
  by (simp add: skipWhiteSpace_eq)

lemma parseValue_fuel_mono:
  assumes "parseValue n cur = Some r" and "n \<le> n'"
  shows "parseValue n' cur = Some r"
  using assms(2,1)
proof (induction rule: dec_induct)
  case base
  then show ?case .
next
  case (step k)
  with parse_fuel_Suc_all [of k] show ?case by blast
qed

lemma parseValue_fuel_agree:
  assumes "parseValue n cur = Some r" and "parseValue n' cur = Some r'"
  shows "r = r'"
proof -
  from parseValue_fuel_mono [OF assms(1), of "max n n'"]
       parseValue_fuel_mono [OF assms(2), of "max n n'"]
  show ?thesis by simp
qed

lemma at_key_Object:
  "at_key (Value Object (object_ptr final)) k =
     (case map_of final k of None \<Rightarrow> Inl out_of_range | Some v \<Rightarrow> Inr v)"
  by (simp add: at_key_def to_object_def isObject_def Object_at_def)

lemma parseObject_loop_round:
  assumes loop: "parseObject_loop (Suc fuel) object_data cur = Some (Inr (ret, cur'))"
    and key: "parseRawString (skipWhiteSpace cur) = Inr (key, cur1)"
    and val: "parseValue fuel (skipWhiteSpace (drop 1 (skipWhiteSpace cur1))) = Some (Inr (value, cur3))"
  shows "at_key ret (unescapeJson key)
           = Inr (case map_of object_data (unescapeJson key) of None \<Rightarrow> value | Some old \<Rightarrow> old)"
    and "map_of object_data k = Some old \<Longrightarrow> at_key ret k = Inr old"
proof -
  let ?stored = "emplace (unescapeJson key) value object_data"
  let ?cur4 = "skipWhiteSpace cur3"
  from loop key val have colon: "peek (skipWhiteSpace cur1) = CHR '':''"
    by (auto simp: Let_def split: if_splits)
  from loop key val colon consider
      "parseObject_loop fuel ?stored (drop 1 ?cur4) = Some (Inr (ret, cur'))"
    | "ret = Value Object (object_ptr ?stored)"
    by (auto simp: Let_def split: if_splits)
  then have "\<exists>final. ret = Value Object (object_ptr final)
     \<and> (\<forall>k v. map_of ?stored k = Some v \<longrightarrow> map_of final k = Some v)"
  proof cases
    case 1
    then show ?thesis by (rule parseObject_loop_keeps)
  next
    case 2
    then show ?thesis by blast
  qed
  then obtain final where ret: "ret = Value Object (object_ptr final)"
    and keeps: "\<And>k v. map_of ?stored k = Some v \<Longrightarrow> map_of final k = Some v"
    by blast
  have "map_of ?stored (unescapeJson key)
          = Some (case map_of object_data (unescapeJson key) of None \<Rightarrow> value | Some old \<Rightarrow> old)"
    by (simp add: map_of_emplace split: option.splits)
  from keeps [OF this]
  show "at_key ret (unescapeJson key)
           = Inr (case map_of object_data (unescapeJson key) of None \<Rightarrow> value | Some old \<Rightarrow> old)"
    by (simp add: ret at_key_Object)
  show "at_key ret k = Inr old" if "map_of object_data k = Some old"
    using keeps [OF map_of_emplace_keeps [OF that]] by (simp add: ret at_key_Object)
qed

lemma parse_root_object:
  assumes "parse json_data = Some (Inr root)" and "peek (skipWhiteSpace json_data) = CHR ''{''"
  shows "\<exists>cur'. parseObject (3 * length json_data + 3) (skipWhiteSpace json_data)
           = Some (Inr (root, cur'))"
  using assms
  by (auto simp: parse_def parseStart_def parseStart_switch_def
        split: option.splits sum.splits if_splits)

lemma parse_first_entry:
  assumes p: "parse json_data = Some (Inr root)"
    and brace: "peek (skipWhiteSpace json_data) = CHR ''{''"
    and key: "parseRawString (skipWhiteSpace (drop 1 (skipWhiteSpace json_data))) = Inr (key, cur1)"
    and val: "parseValue fuel (skipWhiteSpace (drop 1 (skipWhiteSpace cur1))) = Some (Inr (value, cur3))"
  shows "at_key root (unescapeJson key) = Inr value"
proof -
  let ?cur0 = "skipWhiteSpace (drop 1 (skipWhiteSpace json_data))"
  define n where "n = 3 * length json_data + 1"
  from parse_root_object [OF p brace] obtain cur'
    where ob: "parseObject (Suc (Suc n)) (skipWhiteSpace json_data) = Some (Inr (root, cur'))"
    by (auto simp: n_def eval_nat_numeral)
  from key have "peek ?cur0 = CHR 0x22"
    by (auto simp: parseRawString_def split: if_splits)
  then have nb: "peek ?cur0 \<noteq> CHR ''}''" by simp
  with ob have loop: "parseObject_loop (Suc n) [] ?cur0 = Some (Inr (root, cur'))"
    by (simp add: Let_def)
  have key': "parseRawString (skipWhiteSpace ?cur0) = Inr (key, cur1)"
    using key by (simp add: skipWhiteSpace_idem)
  from loop key' obtain r where pv: "parseValue n (skipWhiteSpace (drop 1 (skipWhiteSpace cur1))) = Some r"
    by (auto simp: Let_def split: if_splits option.splits)
  from parseValue_fuel_agree [OF pv val]
  have val': "parseValue n (skipWhiteSpace (drop 1 (skipWhiteSpace cur1))) = Some (Inr (value, cur3))"
    using pv by simp
  from parseObject_loop_round(1) [OF loop key' val'] show ?thesis by simp
qed

lemma peek_dropWhile_no_NUL:
  assumes "CHR 0x00 \<notin> set cur"
  shows "peek (dropWhile whitespace cur) = CHR 0x00 \<longleftrightarrow> list_all whitespace cur"
  using assms by (induction cur) (auto simp: peek_def)

section \<open>Text after the root value\<close>

lemma parseStart_after_root:
  assumes "parseStart_switch (3 * length json_data + 3) (skipWhiteSpace json_data)
             = Some (Inr (ret, cur2))"
  shows "parse json_data =
           (if peek (dropWhile whitespace cur2) = CHR 0x00 then Some (Inr ret)
            else Some (Inl (Exception ROOT_NOT_ONE)))
         \<and> (CHR 0x00 \<notin> set cur2 \<longrightarrow>
              parse json_data =
                (if list_all whitespace cur2 then Some (Inr ret)
                 else Some (Inl (Exception ROOT_NOT_ONE))))"
proof -
  have main: "parse json_data =
           (if peek (dropWhile whitespace cur2) = CHR 0x00 then Some (Inr ret)
            else Some (Inl (Exception ROOT_NOT_ONE)))"
    using assms by (simp add: parse_def parseStart_def skipWhiteSpace_eq)
  then show ?thesis
    by (simp add: peek_dropWhile_no_NUL)
qed

section \<open>Constructed values\<close>





lemma deepCopy_id [simp]: "deepCopy d = d"
  by (cases d) (simp_all add: deepCopy_def)

section \<open>Assignment through references\<close>

lemma inside_simps [simp]:
  "\<not> inside [] rhs"
  "inside (s # this) []"
  "inside (s # this) (s' # rhs) \<longleftrightarrow> s = s' \<and> inside this rhs"
  by (auto simp: inside_def)




lemma tag_matches_simps [simp]:
  "tag_matches t (array_ptr arr) \<longleftrightarrow> t = Array"
  "tag_matches t (object_ptr obj) \<longleftrightarrow> t = Object"
  "tag_matches t (string_alt str) \<longleftrightarrow> t \<noteq> Array \<and> t \<noteq> Object"
  by (cases t; simp add: tag_matches_def)+








lemma Value_assign_separate:
  "Value_assign (Value Array (array_ptr [this, rhs])) [Index 0] [Index 1]
     = Inr (Value Array (array_ptr [Value (type rhs) (deepCopy (value_data rhs)), rhs]))"
  by (cases this; cases rhs)
     (simp add: Value_assign_def at_idx_def to_array_def isArray_def Array_at_def Let_def)


section \<open>Claims\<close>

subsection \<open>C1: duplicate keys\<close>

text \<open>
  C1, as the specification has it: when the same object key occurs more than once in the
  text, \<open>parse\<close> keeps the value of the last occurrence, so that
  \<open>parse("{\"a\":1,\"a\":2}").at("a").to_string()\<close> is \<open>"2"\<close>. The code inserts with
  \<open>std::map::emplace\<close>, which leaves an entry that is already there untouched. What holds
  instead, for every object the parser reads: in each round of the loop of \<open>parseObject\<close>,
  with \<open>key\<close> the key and \<open>value\<close> the value that the round reads from the text, the object
  that is returned in the end maps the unescaped key to the value stored under it before
  the round, if there was one, and to \<open>value\<close> otherwise; and every entry stored before the
  round is in the returned object unchanged. So the first occurrence of a key wins. For
  the object at the root: whatever follows, the value that \<open>parse\<close> returns maps the first
  key of the text to the first value.
\<close>

theorem C1_first_write_wins:
  "(parseObject_loop (Suc fuel) object_data cur = Some (Inr (ret, cur')) \<longrightarrow>
    parseRawString (skipWhiteSpace cur) = Inr (key, cur1) \<longrightarrow>
    parseValue fuel (skipWhiteSpace (drop 1 (skipWhiteSpace cur1))) = Some (Inr (value, cur3)) \<longrightarrow>
      at_key ret (unescapeJson key)
        = Inr (case map_of object_data (unescapeJson key) of None \<Rightarrow> value | Some old \<Rightarrow> old)
      \<and> (\<forall>k old. map_of object_data k = Some old \<longrightarrow> at_key ret k = Inr old))
   \<and> (parse json_data = Some (Inr root) \<longrightarrow>
      peek (skipWhiteSpace json_data) = CHR ''{'' \<longrightarrow>
      parseRawString (skipWhiteSpace (drop 1 (skipWhiteSpace json_data))) = Inr (key1, cur1') \<longrightarrow>
      parseValue fuel1 (skipWhiteSpace (drop 1 (skipWhiteSpace cur1'))) = Some (Inr (value1, cur3')) \<longrightarrow>
        at_key root (unescapeJson key1) = Inr value1)"
  using parseObject_loop_round [of fuel object_data cur ret cur' key cur1 "value" cur3]
    parse_first_entry [of json_data root key1 cur1' fuel1 value1 cur3']
  by blast

theorem C1_first_write_wins_witness:
  \<open>parse ''{"a":1,"a":2}''
     = Some (Inr (Value Object (object_ptr [(''a'', Value Number (string_alt ''1''))])))
   \<and> parseObject_loop 2 [(''a'', Value Number (string_alt ''1''))] ''"a":2}''
     = Some (Inr (Value Object (object_ptr [(''a'', Value Number (string_alt ''1''))]), []))
   \<and> at_key (Value Object (object_ptr [(''a'', Value Number (string_alt ''1''))])) ''a''
     = Inr (Value Number (string_alt ''1''))\<close>
proof -
  let ?one = "Value Number (string_alt ''1'')"
  let ?root = "Value Object (object_ptr [(''a'', ?one)])"
  have u: "unescapeJson ''a'' = ''a''"
    by code_simp
  have p: \<open>parse ''{"a":1,"a":2}'' = Some (Inr ?root)\<close>
    by code_simp
  have brace: \<open>peek (skipWhiteSpace ''{"a":1,"a":2}'') = CHR ''{''\<close>
    by code_simp
  have key: \<open>parseRawString (skipWhiteSpace (drop 1 (skipWhiteSpace ''{"a":1,"a":2}'')))
      = Inr (''a'', '':1,"a":2}'')\<close>
    by code_simp
  have val: \<open>parseValue 1 (skipWhiteSpace (drop 1 (skipWhiteSpace '':1,"a":2}'')))
      = Some (Inr (?one, '',"a":2}''))\<close>
    by code_simp
  from C1_first_write_wins [THEN conjunct2, rule_format, OF p brace key val]
  have first: "at_key ?root ''a'' = Inr ?one"
    by (simp only: u)
  have loop: \<open>parseObject_loop (Suc 1) [(''a'', ?one)] ''"a":2}'' = Some (Inr (?root, []))\<close>
    by code_simp
  have key2: \<open>parseRawString (skipWhiteSpace ''"a":2}'') = Inr (''a'', '':2}'')\<close>
    by code_simp
  have val2: \<open>parseValue 1 (skipWhiteSpace (drop 1 (skipWhiteSpace '':2}'')))
      = Some (Inr (Value Number (string_alt ''2''), ''}''))\<close>
    by code_simp
  from C1_first_write_wins [THEN conjunct1, rule_format, OF loop key2 val2]
  have second: "at_key ?root ''a'' = Inr ?one"
    by (simp add: u)
  have loop': \<open>parseObject_loop 2 [(''a'', ?one)] ''"a":2}'' = Some (Inr (?root, []))\<close>
    by code_simp
  from p loop' first second show ?thesis by simp
qed

text \<open>The example of the claim evaluates to \<open>"1"\<close>, not to \<open>"2"\<close>.\<close>

theorem C1_last_write_wins_counterexample:
  \<open>parse ''{"a":1,"a":2}''
     = Some (Inr (Value Object (object_ptr [(''a'', Value Number (string_alt ''1''))])))
   \<and> at_key (Value Object (object_ptr [(''a'', Value Number (string_alt ''1''))])) ''a''
     = Inr (Value Number (string_alt ''1''))
   \<and> to_string (Value Number (string_alt ''1'')) = Inr ''1''
   \<and> to_string (Value Number (string_alt ''1'')) \<noteq> Inr ''2''\<close>
  by code_simp

subsection \<open>C2: empty containers\<close>

text \<open>
  C2 says that an empty object renders as \<open>{}\<close> and an empty array as \<open>[]\<close>, so that
  \<open>parse("{}").to_string()\<close> is \<open>"{}"\<close> and \<open>parse("[]").to_string()\<close> is \<open>"[]"\<close>. In
  the code the \<open>pop_back\<close> that is meant for the last comma removes the opening bracket
  when the loop has appended nothing: the two texts parse to the empty containers, and
  these render as \<open>}\<close> and \<open>]\<close>.
\<close>

theorem C2_empty_container_loses_opening_bracket:
  \<open>parse ''{}'' = Some (Inr (Value Object (object_ptr [])))
   \<and> to_string (Value Object (object_ptr [])) = Inr ''}''
   \<and> parse ''[]'' = Some (Inr (Value Array (array_ptr [])))
   \<and> to_string (Value Array (array_ptr [])) = Inr '']''\<close>
  by code_simp

subsection \<open>C3: the payload of a parsed string\<close>

text \<open>
  C3 says that the payload of a string the parser accepts in value position is the
  unescaped text. \<open>parseString\<close> stores what \<open>parseRawString\<close> returns
  (\<open>parseString_stores_raw\<close>) and never calls \<open>unescapeJson\<close> (\<open>parseObject\<close> calls it for
  keys): for the text \<open>["a\nb"]\<close>, whose string holds the two characters backslash and
  \<open>n\<close>, the payload is the four characters \<open>a\<close>, backslash, \<open>n\<close>, \<open>b\<close>, while unescaping
  them gives \<open>a\<close>, line feed, \<open>b\<close>.
\<close>

theorem C3_string_payload_is_raw:
  "parse [CHR ''['', CHR 0x22, CHR ''a'', CHR 0x5C, CHR ''n'', CHR ''b'', CHR 0x22, CHR '']'']
     = Some (Inr (Value Array (array_ptr
         [Value String (string_alt [CHR ''a'', CHR 0x5C, CHR ''n'', CHR ''b''])])))
   \<and> unescapeJson [CHR ''a'', CHR 0x5C, CHR ''n'', CHR ''b''] = [CHR ''a'', CHR 0x0A, CHR ''b'']
   \<and> parseString [CHR 0x22, CHR ''a'', CHR 0x5C, CHR ''n'', CHR ''b'', CHR 0x22, CHR '']'']
     = Inr (Value String (string_alt [CHR ''a'', CHR 0x5C, CHR ''n'', CHR ''b'']), '']'')"
  by code_simp

subsection \<open>C4: rendering a string\<close>

text \<open>
  C4 says that a String value with payload \<open>s\<close> renders as a double quote, \<open>escape(s)\<close>
  and a double quote, every recognized control character of \<open>s\<close> appearing as its
  two-character escape sequence. \<open>Value::to_string\<close> puts the payload between the quotes
  as it is and never calls \<open>escapeJson\<close> (\<open>Object::to_string\<close> calls it for keys): a line
  feed in the payload is a line feed in the output, while \<open>escapeJson\<close> gives backslash
  and \<open>n\<close> for it.
\<close>

theorem C4_string_rendered_without_escaping:
  "to_string (Value String (string_alt s)) = Inr ([CHR 0x22] @ s @ [CHR 0x22])
   \<and> to_string (Value String (string_alt [CHR ''a'', CHR 0x0A, CHR ''b'']))
     = Inr [CHR 0x22, CHR ''a'', CHR 0x0A, CHR ''b'', CHR 0x22]
   \<and> escapeJson [CHR ''a'', CHR 0x0A, CHR ''b''] = [CHR ''a'', CHR 0x5C, CHR ''n'', CHR ''b'']"
proof -
  have "escapeJson [CHR ''a'', CHR 0x0A, CHR ''b''] = [CHR ''a'', CHR 0x5C, CHR ''n'', CHR ''b'']"
    by code_simp
  then show ?thesis by simp
qed

subsection \<open>C5: the escape law\<close>

text \<open>
  C5. For every string \<open>s\<close> made only of ordinary characters (neither backslash nor
  double quote) and of the seven recognized control characters (newline, tab, backslash,
  backspace, carriage return, double quote, form feed), unescaping the escaped string
  gives \<open>s\<close> back: \<open>unescapeJson (escapeJson s) = s\<close>.
\<close>

theorem C5_unescape_escape_roundtrip:
  assumes "\<forall>c \<in> set s. ordinary c \<or> recognized_control c"
  shows "unescapeJson (escapeJson s) = s"
  by (rule unescapeJson_escapeJson_any)

theorem C5_unescape_escape_roundtrip_witness:
  "unescapeJson (escapeJson [CHR ''a'', CHR 0x0A, CHR 0x09, CHR 0x5C, CHR 0x08, CHR 0x0D,
        CHR 0x22, CHR 0x0C, CHR ''z''])
     = [CHR ''a'', CHR 0x0A, CHR 0x09, CHR 0x5C, CHR 0x08, CHR 0x0D, CHR 0x22, CHR 0x0C,
        CHR ''z'']"
proof -
  have h: "\<forall>c \<in> set [CHR ''a'', CHR 0x0A, CHR 0x09, CHR 0x5C, CHR 0x08, CHR 0x0D, CHR 0x22,
        CHR 0x0C, CHR ''z'']. ordinary c \<or> recognized_control c"
    by (simp add: ordinary_def recognized_control_def)
  show ?thesis using C5_unescape_escape_roundtrip [OF h] .
qed

subsection \<open>C6: unicode escapes\<close>

text \<open>
  C6 says that a \<open>\u\<close> escape in a parsed string or object key is accepted and passes into
  the stored text unchanged: backslash, \<open>u\<close> and the four digits. In a string value it
  does, since the payload is the raw text. In a key it does not: \<open>unescapeJson\<close> has no
  case for \<open>u\<close>, its \<open>default\<close> leaves \<open>replaceIdx\<close> at 0, and the \<open>replace\<close> after the
  \<open>switch\<close> then puts a line feed in the place of the backslash and the \<open>u\<close>
  (\<open>unescapeJson_unrecognized\<close>). The key of \<open>{"\u0041":1}\<close> is stored as line feed,
  \<open>0041\<close>.
\<close>

theorem C6_unicode_escape_in_key_becomes_line_feed:
  "parse ([CHR ''{'', CHR 0x22, CHR 0x5C, CHR ''u'', CHR ''0'', CHR ''0'', CHR ''4'', CHR ''1'',
           CHR 0x22] @ '':1}'')
     = Some (Inr (Value Object (object_ptr
         [([CHR 0x0A, CHR ''0'', CHR ''0'', CHR ''4'', CHR ''1''],
           Value Number (string_alt ''1''))])))
   \<and> unescapeJson [CHR 0x5C, CHR ''u'', CHR ''0'', CHR ''0'', CHR ''4'', CHR ''1'']
     = [CHR 0x0A, CHR ''0'', CHR ''0'', CHR ''4'', CHR ''1'']
   \<and> parse [CHR ''['', CHR 0x22, CHR 0x5C, CHR ''u'', CHR ''0'', CHR ''0'', CHR ''4'', CHR ''1'',
           CHR 0x22, CHR '']'']
     = Some (Inr (Value Array (array_ptr
         [Value String
            (string_alt [CHR 0x5C, CHR ''u'', CHR ''0'', CHR ''0'', CHR ''4'', CHR ''1''])])))"
  by code_simp

subsection \<open>C7: the root must be an object or an array\<close>

text \<open>
  C7. For every text whose first character that is not white space is neither \<open>{\<close> nor
  \<open>[\<close>, \<open>parse\<close> fails with \<open>NOT_JSON\<close>; so do \<open>parse("42")\<close>, \<open>parse("\"x\"")\<close> and
  \<open>parse("true")\<close>.
\<close>

theorem C7_root_must_be_container:
  assumes "first_non_whitespace json_data = Some c" and "c \<noteq> CHR ''{''" and "c \<noteq> CHR ''[''"
  shows "parse json_data = Some (Inl (Exception NOT_JSON))"
proof -
  from assms(1) obtain rest where "skipWhiteSpace json_data = c # rest"
    by (auto simp: first_non_whitespace_def skipWhiteSpace_eq split: list.splits)
  then have "peek (skipWhiteSpace json_data) = c"
    by (simp add: peek_def)
  with assms(2,3) show ?thesis
    by (simp add: parse_def parseStart_def parseStart_switch_def)
qed

theorem C7_root_must_be_container_witness:
  \<open>parse ''42'' = Some (Inl (Exception NOT_JSON))
   \<and> parse ''"x"'' = Some (Inl (Exception NOT_JSON))
   \<and> parse ''true'' = Some (Inl (Exception NOT_JSON))\<close>
proof -
  have a: "first_non_whitespace ''42'' = Some (CHR ''4'')"
    by (simp add: first_non_whitespace_def whitespace_def)
  have b: \<open>first_non_whitespace ''"x"'' = Some (CHR 0x22)\<close>
    by (simp add: first_non_whitespace_def whitespace_def)
  have c: "first_non_whitespace ''true'' = Some (CHR ''t'')"
    by (simp add: first_non_whitespace_def whitespace_def)
  show ?thesis
    using C7_root_must_be_container [OF a] C7_root_must_be_container [OF b]
      C7_root_must_be_container [OF c]
    by simp
qed

subsection \<open>C8: text after the root value\<close>

text \<open>
  C8 says that for a valid top-level object or array followed by more text, \<open>parse\<close>
  succeeds exactly when all that follows the root value is white space, the cursor then
  being at the end of the input, and fails with \<open>ROOT_NOT_ONE\<close> otherwise. \<open>parseStart\<close>
  does not compare \<open>cur_\<close> with \<open>end_\<close>, as the loops of the parser do; it tests
  \<open>*cur_ != 0\<close>. A NUL character after the root value is taken for the end of the input:
  the texts \<open>{}\<close> and \<open>[]\<close> followed by a NUL character and \<open>x\<close> are accepted, while
  \<open>{} x\<close> fails with \<open>ROOT_NOT_ONE\<close>. And a valid root can fail with nothing after it:
  the \<open>switch\<close> of \<open>parseNumber\<close> reads a fraction or an exponent, never both, so
  \<open>[1.5e3]\<close> fails with \<open>LACK_COMMA_OR_BRACKET\<close> at the \<open>e\<close>.
\<close>

theorem C8_text_after_NUL_is_accepted:
  \<open>parse (''{}'' @ [CHR 0x00] @ ''x'') = Some (Inr (Value Object (object_ptr [])))
   \<and> parse (''[]'' @ [CHR 0x00] @ ''x'') = Some (Inr (Value Array (array_ptr [])))
   \<and> parse ''{} x'' = Some (Inl (Exception ROOT_NOT_ONE))
   \<and> parse ''[1.5e3]'' = Some (Inl (Exception LACK_COMMA_OR_BRACKET))\<close>
  by code_simp

subsection \<open>C9: the tag and the active alternative\<close>




subsection \<open>C10: MISS_VALUE is never raised\<close>

text \<open>
  C10. For every text, \<open>parse\<close> returns, and what it returns is never the error
  \<open>MISS_VALUE\<close>: the kind is declared, and no path of the parser throws it; when \<open>parse\<close>
  fails, it fails with one of the kinds of \<open>parser_kinds\<close>. No accessor (\<open>to_string\<close>,
  \<open>to_object\<close>, \<open>to_array\<close>, \<open>at\<close>) throws \<open>MISS_VALUE\<close> either.
\<close>

theorem C10_never_MISS_VALUE:
  "(\<exists>r. parse json_data = Some r \<and> r \<noteq> Inl (Exception MISS_VALUE)
        \<and> (case r of Inl e \<Rightarrow> e \<in> Exception ` parser_kinds | Inr ret \<Rightarrow> True))
   \<and> MISS_VALUE \<notin> parser_kinds
   \<and> to_string v \<noteq> Inl (Exception MISS_VALUE)
   \<and> to_object v \<noteq> Inl (Exception MISS_VALUE)
   \<and> to_array v \<noteq> Inl (Exception MISS_VALUE)
   \<and> at_key v key \<noteq> Inl (Exception MISS_VALUE)
   \<and> at_idx v idx \<noteq> Inl (Exception MISS_VALUE)"
proof -
  from parse_returns obtain r where r: "parse json_data = Some r" by blast
  have k: "case r of Inl e \<Rightarrow> e \<in> Exception ` parser_kinds | Inr ret \<Rightarrow> True"
    using parse_throws_only [of json_data] r by (cases r) (simp_all add: throws_only_def)
  then have "r \<noteq> Inl (Exception MISS_VALUE)"
    by (cases r) auto
  with r k have 1: "\<exists>r. parse json_data = Some r \<and> r \<noteq> Inl (Exception MISS_VALUE)
        \<and> (case r of Inl e \<Rightarrow> e \<in> Exception ` parser_kinds | Inr ret \<Rightarrow> True)"
    by blast
  have 2: "to_string v \<noteq> Inl (Exception MISS_VALUE)"
    using to_string_throws(1) [of v "Exception MISS_VALUE"] by auto
  have 3: "to_object v \<noteq> Inl (Exception MISS_VALUE)"
    using accessor_throws(1) [of v "Exception MISS_VALUE"] by auto
  have 4: "to_array v \<noteq> Inl (Exception MISS_VALUE)"
    using accessor_throws(2) [of v "Exception MISS_VALUE"] by auto
  have 5: "at_key v key \<noteq> Inl (Exception MISS_VALUE)"
    using accessor_throws(3) [of v key "Exception MISS_VALUE"] by auto
  have 6: "at_idx v idx \<noteq> Inl (Exception MISS_VALUE)"
    using accessor_throws(4) [of v idx "Exception MISS_VALUE"] by auto
  from 1 2 3 4 5 6 show ?thesis by simp
qed

end
